theory Spec2Isabelle
  imports Main "HOL-Library.Word"
begin

unbundle bit_operations_syntax

section \<open>Machine model\<close>

text \<open>
  The allocator of \<^verbatim>\<open>maxlloc.h\<close> on an LP64 machine: \<^verbatim>\<open>size_t\<close>, \<^verbatim>\<open>uintptr_t\<close> and
  pointers are 64-bit words, so \<^verbatim>\<open>sizeof(MaxllocHeader)\<close> is 8. Memory is a partial map
  from addresses to bytes; an address that is not mapped holds \<open>None\<close>, and touching it
  is a segmentation fault.
\<close>

type_synonym size_t = "64 word"
type_synonym addr = "64 word"
type_synonym byte = "8 word"
type_synonym memory = "addr \<Rightarrow> byte option"

datatype fault = Segfault

datatype syscall = Mmap size_t "addr option" | Munmap addr size_t

record os_state =
  mem :: memory
  calls :: "syscall list"

definition NULL :: addr where
  "NULL = 0"

definition header_size :: size_t where
  "header_size = 8"

subsection \<open>Byte ranges\<close>

primrec range_mapped :: "memory \<Rightarrow> addr \<Rightarrow> nat \<Rightarrow> bool" where
  "range_mapped m a 0 = True"
| "range_mapped m a (Suc n) = (m a \<noteq> None \<and> range_mapped m (a + 1) n)"

primrec range_free :: "memory \<Rightarrow> addr \<Rightarrow> nat \<Rightarrow> bool" where
  "range_free m a 0 = True"
| "range_free m a (Suc n) = (m a = None \<and> range_free m (a + 1) n)"

primrec fill :: "memory \<Rightarrow> addr \<Rightarrow> nat \<Rightarrow> byte option \<Rightarrow> memory" where
  "fill m a 0 v = m"
| "fill m a (Suc n) v = (fill m (a + 1) n v)(a := v)"

primrec copy_bytes :: "memory \<Rightarrow> memory \<Rightarrow> addr \<Rightarrow> addr \<Rightarrow> nat \<Rightarrow> memory" where
  "copy_bytes m0 m d s 0 = m"
| "copy_bytes m0 m d s (Suc n) = (copy_bytes m0 m (d + 1) (s + 1) n)(d := m0 s)"

primrec write_bytes :: "memory \<Rightarrow> addr \<Rightarrow> byte list \<Rightarrow> memory" where
  "write_bytes m a [] = m"
| "write_bytes m a (b # bs) = (write_bytes m (a + 1) bs)(a := Some b)"

subsection \<open>The header field \<^verbatim>\<open>block_size\<close> in memory\<close>

text \<open>A \<^verbatim>\<open>size_t\<close> occupies eight bytes, least significant byte first.\<close>

definition size_bytes :: "size_t \<Rightarrow> byte list" where
  "size_bytes v = map (\<lambda>i. ucast (drop_bit (8 * i) v)) [0..<8]"

definition bytes_size :: "byte list \<Rightarrow> size_t" where
  "bytes_size bs = foldr (\<lambda>b w. ucast b OR push_bit 8 w) bs 0"

definition load_size :: "os_state \<Rightarrow> addr \<Rightarrow> fault + size_t" where
  "load_size s a =
     (if range_mapped (mem s) a 8
      then Inr (bytes_size (map (\<lambda>i. the (mem s (a + of_nat i))) [0..<8]))
      else Inl Segfault)"

definition store_size :: "os_state \<Rightarrow> addr \<Rightarrow> size_t \<Rightarrow> fault + os_state" where
  "store_size s a v =
     (if range_mapped (mem s) a 8
      then Inr (s\<lparr>mem := write_bytes (mem s) a (size_bytes v)\<rparr>)
      else Inl Segfault)"

subsection \<open>The operating system and the C library\<close>

text \<open>
  \<^verbatim>\<open>mmap(NULL, len, PROT_READ | PROT_WRITE, MAP_PRIVATE | MAP_ANONYMOUS, -1, 0)\<close>:
  the kernel's answer \<open>r\<close> is an input of the model, \<open>None\<close> for \<^verbatim>\<open>MAP_FAILED\<close> and
  \<open>Some base\<close> for a mapping at \<open>base\<close>. A request of length 0 is always refused
  (\<^verbatim>\<open>EINVAL\<close>). A granted mapping is zero-filled. Every call is recorded in \<open>calls\<close>.
\<close>

definition os_mmap :: "os_state \<Rightarrow> addr option \<Rightarrow> size_t \<Rightarrow> addr option \<times> os_state" where
  "os_mmap s r len =
     (case (if len = 0 then None else r) of
        None \<Rightarrow> (None, s\<lparr>calls := calls s @ [Mmap len None]\<rparr>)
      | Some base \<Rightarrow>
          (Some base,
           \<lparr>mem = fill (mem s) base (unat len) (Some 0),
            calls = calls s @ [Mmap len (Some base)]\<rparr>))"

text \<open>\<^verbatim>\<open>munmap(a, len)\<close> removes the bytes \<open>a, \<dots>, a + len - 1\<close> from the address space.\<close>

definition os_munmap :: "os_state \<Rightarrow> addr \<Rightarrow> size_t \<Rightarrow> os_state" where
  "os_munmap s a len =
     \<lparr>mem = fill (mem s) a (unat len) None, calls = calls s @ [Munmap a len]\<rparr>"

definition memset :: "os_state \<Rightarrow> addr \<Rightarrow> byte \<Rightarrow> size_t \<Rightarrow> fault + os_state" where
  "memset s p c n =
     (if range_mapped (mem s) p (unat n)
      then Inr (s\<lparr>mem := fill (mem s) p (unat n) (Some c)\<rparr>)
      else Inl Segfault)"

definition memcpy :: "os_state \<Rightarrow> addr \<Rightarrow> addr \<Rightarrow> size_t \<Rightarrow> fault + os_state" where
  "memcpy s d src n =
     (if range_mapped (mem s) src (unat n) \<and> range_mapped (mem s) d (unat n)
      then Inr (s\<lparr>mem := copy_bytes (mem s) (mem s) d src (unat n)\<rparr>)
      else Inl Segfault)"

section \<open>The allocator\<close>

text \<open>
  \<^verbatim>\<open>_maxlloc_round_up_to_page_size\<close>. \<open>pagesize\<close> is the \<^verbatim>\<open>int\<close> that \<^verbatim>\<open>getpagesize()\<close>
  returns; \<^verbatim>\<open>getpagesize() - 1\<close> is computed in \<^verbatim>\<open>int\<close> and converted to \<^verbatim>\<open>size_t\<close>.
\<close>

definition maxlloc_round_up_to_page_size :: "int \<Rightarrow> size_t \<Rightarrow> size_t" where
  "maxlloc_round_up_to_page_size pagesize sz =
     (let page_size = word_of_int (pagesize - 1);
          sz = sz + header_size;
          sz = sz + page_size;
          sz = sz AND NOT page_size
      in sz)"

definition maxlloc :: "int \<Rightarrow> os_state \<Rightarrow> addr option \<Rightarrow> size_t \<Rightarrow> fault + (addr \<times> os_state)" where
  "maxlloc pagesize s r sz =
     (if sz = 0 then Inr (NULL, s)
      else
        let total = maxlloc_round_up_to_page_size pagesize sz in
        case os_mmap s r total of
          (None, s1) \<Rightarrow> Inr (NULL, s1)
        | (Some header, s1) \<Rightarrow>
            (case store_size s1 header total of
               Inl f \<Rightarrow> Inl f
             | Inr s2 \<Rightarrow> Inr (header + header_size, s2)))"

definition free :: "os_state \<Rightarrow> addr \<Rightarrow> fault + os_state" where
  "free s ptr =
     (if ptr = NULL then Inr s
      else
        let header = ptr - header_size in
        case load_size s header of
          Inl f \<Rightarrow> Inl f
        | Inr block_size \<Rightarrow> Inr (os_munmap s header block_size))"

definition calloc :: "int \<Rightarrow> os_state \<Rightarrow> addr option \<Rightarrow> size_t \<Rightarrow> size_t \<Rightarrow> fault + (addr \<times> os_state)" where
  "calloc pagesize s r count sz =
     (let total_size = count * sz in
      case maxlloc pagesize s r total_size of
        Inl f \<Rightarrow> Inl f
      | Inr (ptr, s1) \<Rightarrow>
          if ptr \<noteq> NULL
          then (case memset s1 ptr 0 total_size of
                  Inl f \<Rightarrow> Inl f
                | Inr s2 \<Rightarrow> Inr (ptr, s2))
          else Inr (ptr, s1))"

definition realloc :: "int \<Rightarrow> os_state \<Rightarrow> addr option \<Rightarrow> addr \<Rightarrow> size_t \<Rightarrow> fault + (addr \<times> os_state)" where
  "realloc pagesize s r ptr sz =
     (if sz = 0 then
        (case free s ptr of
           Inl f \<Rightarrow> Inl f
         | Inr s1 \<Rightarrow> Inr (NULL, s1))
      else if ptr = NULL then maxlloc pagesize s r sz
      else
        let old_header = ptr - header_size in
        case load_size s old_header of
          Inl f \<Rightarrow> Inl f
        | Inr old_size \<Rightarrow>
            let new_size = maxlloc_round_up_to_page_size pagesize sz in
            if new_size \<le> old_size then Inr (ptr, s)
            else
              case os_mmap s r new_size of
                (None, s1) \<Rightarrow> Inr (NULL, s1)
              | (Some new_header, s1) \<Rightarrow>
                  (case memcpy s1 (new_header + header_size) ptr (old_size - header_size) of
                     Inl f \<Rightarrow> Inl f
                   | Inr s2 \<Rightarrow>
                       (case store_size s2 new_header new_size of
                          Inl f \<Rightarrow> Inl f
                        | Inr s3 \<Rightarrow>
                            (case free s3 ptr of
                               Inl f \<Rightarrow> Inl f
                             | Inr s4 \<Rightarrow> Inr (new_header + header_size, s4)))))"

section \<open>Well-formedness\<close>

text \<open>An address or a size is a multiple of the page size.\<close>

definition page_multiple :: "int \<Rightarrow> 64 word \<Rightarrow> bool" where
  "page_multiple pagesize w = (uint w mod pagesize = 0)"

text \<open>
  A valid live pointer: it is not null, the header in front of it sits on a page boundary and
  is readable, the stored \<^verbatim>\<open>block_size\<close> is a positive multiple of the page size, and every
  byte of the block, header included, is mapped.
\<close>

definition live :: "int \<Rightarrow> os_state \<Rightarrow> addr \<Rightarrow> bool" where
  "live pagesize s ptr =
     (ptr \<noteq> NULL \<and> page_multiple pagesize (ptr - header_size) \<and>
      (case load_size s (ptr - header_size) of
         Inl f \<Rightarrow> False
       | Inr block_size \<Rightarrow>
           block_size \<noteq> 0 \<and> page_multiple pagesize block_size \<and>
           range_mapped (mem s) (ptr - header_size) (unat block_size)))"

text \<open>
  What the kernel may answer to a request for \<open>len\<close> bytes: a page-aligned base whose \<open>len\<close>
  bytes are not part of any existing mapping.
\<close>

definition fresh_mapping :: "int \<Rightarrow> os_state \<Rightarrow> addr \<Rightarrow> size_t \<Rightarrow> bool" where
  "fresh_mapping pagesize s base len =
     (page_multiple pagesize base \<and> range_free (mem s) base (unat len))"

text \<open>The specification of \<^verbatim>\<open>realloc(ptr, 0)\<close>: release the pointer, then return null.\<close>

definition release_then_null :: "os_state \<Rightarrow> addr \<Rightarrow> fault + (addr \<times> os_state)" where
  "release_then_null s ptr =
     (case free s ptr of
        Inl f \<Rightarrow> Inl f
      | Inr s' \<Rightarrow> Inr (NULL, s'))"

section \<open>Example states\<close>

text \<open>
  An address space with nothing mapped, and the one that \<^verbatim>\<open>maxlloc(1)\<close> leaves behind on a
  machine with 16-byte pages when the kernel places the mapping at \<open>0x100\<close>.
\<close>

definition empty_state :: os_state where
  "empty_state = \<lparr>mem = (\<lambda>a. None), calls = []\<rparr>"

definition one_block :: os_state where
  "one_block =
     \<lparr>mem = write_bytes (fill (\<lambda>a. None) 256 16 (Some 0)) 256 (size_bytes 16),
      calls = [Mmap 16 (Some 256)]\<rparr>"

section \<open>Memory lemmas\<close>

lemma range_mapped_iff:
  "range_mapped m a n \<longleftrightarrow> (\<forall>i<n. m (a + of_nat i) \<noteq> None)"
proof (induction n arbitrary: a)
  case 0
  show ?case by simp
next
  case (Suc n)
  have "(\<forall>i<Suc n. m (a + of_nat i) \<noteq> None)
          \<longleftrightarrow> m a \<noteq> None \<and> (\<forall>i<n. m (a + 1 + of_nat i) \<noteq> None)"
    by (auto simp: less_Suc_eq_0_disj add.assoc)
  with Suc show ?case by simp
qed

lemma range_free_iff:
  "range_free m a n \<longleftrightarrow> (\<forall>i<n. m (a + of_nat i) = None)"
proof (induction n arbitrary: a)
  case 0
  show ?case by simp
next
  case (Suc n)
  have "(\<forall>i<Suc n. m (a + of_nat i) = None)
          \<longleftrightarrow> m a = None \<and> (\<forall>i<n. m (a + 1 + of_nat i) = None)"
    by (auto simp: less_Suc_eq_0_disj add.assoc)
  with Suc show ?case by simp
qed

lemma fill_apply:
  "fill m a n v x = (if \<exists>i<n. x = a + of_nat i then v else m x)"
proof (induction n arbitrary: a)
  case 0
  show ?case by simp
next
  case (Suc n)
  have "(\<exists>i<Suc n. x = a + of_nat i) \<longleftrightarrow> x = a \<or> (\<exists>i<n. x = a + 1 + of_nat i)"
    by (auto simp: less_Suc_eq_0_disj add.assoc)
  with Suc show ?case by auto
qed

lemma copy_bytes_outside:
  "\<forall>i<n. x \<noteq> d + of_nat i \<Longrightarrow> copy_bytes m0 m d s n x = m x"
proof (induction n arbitrary: d s)
  case 0
  show ?case by simp
next
  case (Suc n)
  from Suc.prems have "x \<noteq> d" by force
  moreover have "\<forall>i<n. x \<noteq> d + 1 + of_nat i"
  proof (intro allI impI)
    fix i assume "i < n"
    then have "Suc i < Suc n" by simp
    with Suc.prems have "x \<noteq> d + of_nat (Suc i)" by blast
    then show "x \<noteq> d + 1 + of_nat i" by (simp add: add.assoc)
  qed
  ultimately show ?case using Suc.IH by simp
qed

lemma size_t_of_nat_inj:
  assumes "i < 2 ^ 64" "j < 2 ^ 64" "(of_nat i :: size_t) = of_nat j"
  shows "i = j"
proof -
  have "unat (of_nat i :: size_t) = unat (of_nat j :: size_t)"
    using assms(3) by simp
  then show ?thesis
    using assms(1,2) by (simp add: unat_of_nat)
qed

lemma offset_neq_base:
  assumes "0 < i" "i < 2 ^ 64"
  shows "(a :: size_t) + of_nat i \<noteq> a"
proof
  assume "a + of_nat i = a"
  then have "(of_nat i :: size_t) = of_nat 0" by simp
  then have "i = 0" using assms(2) by (intro size_t_of_nat_inj) simp_all
  with assms(1) show False by simp
qed

lemma copy_bytes_inside:
  "n \<le> 2 ^ 64 \<Longrightarrow> i < n \<Longrightarrow> copy_bytes m0 m d s n (d + of_nat i) = m0 (s + of_nat i)"
proof (induction n arbitrary: d s i)
  case 0
  then show ?case by simp
next
  case (Suc n)
  show ?case
  proof (cases i)
    case 0
    then show ?thesis by simp
  next
    case (Suc j)
    have "d + of_nat i \<noteq> d"
      using Suc.prems Suc by (intro offset_neq_base) simp_all
    moreover have "copy_bytes m0 m (d + 1) (s + 1) n (d + 1 + of_nat j) = m0 (s + 1 + of_nat j)"
      using Suc.prems Suc by (intro Suc.IH) simp_all
    ultimately show ?thesis using Suc by (simp add: add.assoc)
  qed
qed

lemma write_bytes_outside:
  "\<forall>i<length bs. x \<noteq> a + of_nat i \<Longrightarrow> write_bytes m a bs x = m x"
proof (induction bs arbitrary: a)
  case Nil
  show ?case by simp
next
  case (Cons b bs)
  from Cons.prems have "x \<noteq> a" by force
  moreover have "\<forall>i<length bs. x \<noteq> a + 1 + of_nat i"
  proof (intro allI impI)
    fix i assume "i < length bs"
    then have "Suc i < length (b # bs)" by simp
    with Cons.prems have "x \<noteq> a + of_nat (Suc i)" by blast
    then show "x \<noteq> a + 1 + of_nat i" by (simp add: add.assoc)
  qed
  ultimately show ?case using Cons.IH by simp
qed

lemma write_bytes_inside:
  "length bs \<le> 2 ^ 64 \<Longrightarrow> i < length bs \<Longrightarrow> write_bytes m a bs (a + of_nat i) = Some (bs ! i)"
proof (induction bs arbitrary: a i)
  case Nil
  then show ?case by simp
next
  case (Cons b bs)
  show ?case
  proof (cases i)
    case 0
    then show ?thesis by simp
  next
    case (Suc j)
    have "a + of_nat i \<noteq> a"
      using Cons.prems Suc by (intro offset_neq_base) simp_all
    moreover have "write_bytes m (a + 1) bs (a + 1 + of_nat j) = Some (bs ! j)"
      using Cons.prems Suc by (intro Cons.IH) simp_all
    ultimately show ?thesis using Suc by (simp add: add.assoc)
  qed
qed

subsection \<open>The header codec\<close>

lemma bytes_step:
  "ucast (ucast (drop_bit (8 * j) v) :: byte) OR push_bit 8 (take_bit (8 * n) (drop_bit (8 * Suc j) v))
     = take_bit (8 * Suc n) (drop_bit (8 * j) (v :: size_t))"
proof (rule bit_word_eqI)
  fix m
  assume "m < LENGTH(64)"
  then have m: "m < 64" by simp
  show "bit (ucast (ucast (drop_bit (8 * j) v) :: byte) OR push_bit 8 (take_bit (8 * n) (drop_bit (8 * Suc j) v))) m
     = bit (take_bit (8 * Suc n) (drop_bit (8 * j) (v :: size_t))) m"
  proof (cases "m < 8")
    case True
    then show ?thesis by (simp add: bit_simps)
  next
    case False
    then have "8 * Suc j + (m - 8) = 8 * j + m" by simp
    with False m show ?thesis by (auto simp add: bit_simps)
  qed
qed

lemma bytes_size_map:
  "bytes_size (map (\<lambda>i. ucast (drop_bit (8 * i) v)) [j..<j + n]) = take_bit (8 * n) (drop_bit (8 * j) v)"
proof (induction n arbitrary: j)
  case 0
  show ?case by (simp add: bytes_size_def)
next
  case (Suc n)
  have "[j..<j + Suc n] = j # [Suc j..<Suc j + n]"
    by (simp add: upt_rec)
  then show ?case
    using Suc.IH [of "Suc j"] bytes_step [of j v n] by (simp add: bytes_size_def)
qed

lemma bytes_size_bytes: "bytes_size (size_bytes v) = v"
  using bytes_size_map [of v 0 8] by (simp add: size_bytes_def take_bit_word_eq_self)

lemma length_size_bytes: "length (size_bytes v) = 8"
  by (simp add: size_bytes_def)

section \<open>Size rounding\<close>

lemma and_not_mask_push_drop:
  "(w :: 'a::len word) AND NOT (mask k) = push_bit k (drop_bit k w)"
  by (rule bit_word_eqI) (auto simp: bit_simps)

lemma unat_and_not_mask:
  "unat ((w :: 'a::len word) AND NOT (mask k)) = (unat w div 2 ^ k) * 2 ^ k"
proof -
  have le: "(unat w div 2 ^ k) * 2 ^ k \<le> unat w"
    by simp
  have lt: "unat w < 2 ^ LENGTH('a)"
    by (rule unsigned_less)
  have "unat (push_bit k (drop_bit k w)) = take_bit LENGTH('a) (push_bit k (unat (drop_bit k w)))"
    by (simp add: unsigned_push_bit_eq)
  also have "\<dots> = ((unat w div 2 ^ k) * 2 ^ k) mod 2 ^ LENGTH('a)"
    by (simp only: unat_drop_bit_eq) (simp only: drop_bit_eq_div push_bit_eq_mult take_bit_eq_mod)
  also have "\<dots> = (unat w div 2 ^ k) * 2 ^ k"
    by (rule mod_less) (rule le_less_trans [OF le lt])
  finally show ?thesis by (simp add: and_not_mask_push_drop)
qed

lemma unat_mask_size_t:
  assumes "k < 64"
  shows "unat (mask k :: size_t) = 2 ^ k - 1"
proof -
  have "(2::nat) ^ k < 2 ^ 64"
    by (rule power_strict_increasing [OF assms]) simp
  then have lt: "(2::nat) ^ k - 1 < 2 ^ LENGTH(64)"
    by simp
  have "unat (word_of_nat (2 ^ k - 1) :: size_t) = (2 ^ k - 1) mod 2 ^ LENGTH(64)"
    by (rule unat_of_nat)
  also have "\<dots> = 2 ^ k - 1"
    by (rule mod_less [OF lt])
  finally have "unat (word_of_nat (2 ^ k - 1) :: size_t) = 2 ^ k - 1" .
  moreover have "(word_of_nat (2 ^ k - 1) :: size_t) = mask k"
    using of_nat_mask_eq [of k, where ?'a = size_t] by (simp only: mask_nat_def)
  ultimately show ?thesis
    by (simp only:)
qed

lemma round_up_nat:
  fixes x :: size_t
  assumes "k < 64" "unat x + (2 ^ k - 1) < 2 ^ 64"
  shows "unat ((x + mask k) AND NOT (mask k)) = ((unat x + (2 ^ k - 1)) div 2 ^ k) * 2 ^ k"
proof -
  have "unat (x + mask k) = unat x + (2 ^ k - 1)"
    using assms by (simp add: unat_word_ariths unat_mask_size_t)
  then show ?thesis by (simp add: unat_and_not_mask)
qed

lemma least_multiple:
  fixes n :: nat
  assumes "0 < p"
  shows "p dvd ((n + (p - 1)) div p) * p"
    and "n \<le> ((n + (p - 1)) div p) * p"
    and "p dvd m \<Longrightarrow> n \<le> m \<Longrightarrow> ((n + (p - 1)) div p) * p \<le> m"
proof -
  show "p dvd ((n + (p - 1)) div p) * p" by simp
  have "n + (p - 1) < ((n + (p - 1)) div p) * p + p"
    using assms by (metis add.commute dividend_less_div_times)
  then show "n \<le> ((n + (p - 1)) div p) * p" using assms by linarith
  assume "p dvd m" "n \<le> m"
  then obtain j where m: "m = j * p" by (auto simp: dvd_def mult.commute)
  have "(n + (p - 1)) div p \<le> j"
  proof (rule ccontr)
    assume "\<not> (n + (p - 1)) div p \<le> j"
    then have "Suc j \<le> (n + (p - 1)) div p" by simp
    then have "Suc j * p \<le> ((n + (p - 1)) div p) * p" by (rule mult_le_mono1)
    also have "\<dots> \<le> n + (p - 1)" by simp
    finally have "j * p < n" using assms by simp
    with \<open>n \<le> m\<close> m show False by simp
  qed
  then show "((n + (p - 1)) div p) * p \<le> m" unfolding m by (rule mult_le_mono1)
qed

lemma round_up_mask:
  "maxlloc_round_up_to_page_size (2 ^ k) sz = (sz + 8 + mask k) AND NOT (mask k)"
  by (simp add: maxlloc_round_up_to_page_size_def header_size_def mask_eq_exp_minus_1)

lemma unat_round_up:
  assumes "k < 64" "unat sz + 8 + (2 ^ k - 1) < 2 ^ 64"
  shows "unat (maxlloc_round_up_to_page_size (2 ^ k) sz)
           = ((unat sz + 8 + (2 ^ k - 1)) div 2 ^ k) * 2 ^ k"
proof -
  have "unat sz + 8 < 2 ^ 64"
    using assms(2) by linarith
  then have "unat (sz + 8) = unat sz + 8"
    by (simp add: unat_word_ariths)
  with assms show ?thesis
    by (simp add: round_up_mask round_up_nat)
qed

section \<open>C1: the size rounder\<close>

text \<open>
  C1 (amended). Let the page size be a power of two that fits an \<^verbatim>\<open>int\<close>, and let the
  request \<open>sz\<close> be small enough that \<open>sz + sizeof(MaxllocHeader) + (page size - 1)\<close> does
  not exceed the largest \<^verbatim>\<open>size_t\<close>. Then \<^verbatim>\<open>_maxlloc_round_up_to_page_size\<close> returns the
  smallest multiple of the page size that is at least \<open>sz + sizeof(MaxllocHeader)\<close>. With a
  4096-byte page and the 8-byte header, a request of 1 byte and a request of 4088 bytes
  give 4096, and requests of 4089 and of 4090 bytes give 8192.
\<close>

theorem round_up_least_page_multiple:
  assumes "k < 31" and "unat sz + unat header_size + (2 ^ k - 1) < 2 ^ 64"
  shows "2 ^ k dvd unat (maxlloc_round_up_to_page_size (2 ^ k) sz)
       \<and> unat sz + unat header_size \<le> unat (maxlloc_round_up_to_page_size (2 ^ k) sz)
       \<and> (\<forall>m. 2 ^ k dvd m \<and> unat sz + unat header_size \<le> m
              \<longrightarrow> unat (maxlloc_round_up_to_page_size (2 ^ k) sz) \<le> m)
       \<and> maxlloc_round_up_to_page_size 4096 1 = 4096
       \<and> maxlloc_round_up_to_page_size 4096 4088 = 4096
       \<and> maxlloc_round_up_to_page_size 4096 4089 = 8192
       \<and> maxlloc_round_up_to_page_size 4096 4090 = 8192"
proof -
  have k: "k < 64" using assms(1) by simp
  have b: "unat sz + 8 + (2 ^ k - 1) < 2 ^ 64"
    using assms(2) by (simp add: header_size_def)
  have p: "0 < (2::nat) ^ k" by simp
  have r: "unat (maxlloc_round_up_to_page_size (2 ^ k) sz)
             = ((unat sz + 8 + (2 ^ k - 1)) div 2 ^ k) * 2 ^ k"
    by (rule unat_round_up [OF k b])
  have h: "unat header_size = 8" by (simp add: header_size_def)
  have "2 ^ k dvd unat (maxlloc_round_up_to_page_size (2 ^ k) sz)"
    unfolding r by (rule least_multiple(1) [OF p])
  moreover have "unat sz + unat header_size \<le> unat (maxlloc_round_up_to_page_size (2 ^ k) sz)"
    unfolding r h by (rule least_multiple(2) [OF p])
  moreover have "\<forall>m. 2 ^ k dvd m \<and> unat sz + unat header_size \<le> m
              \<longrightarrow> unat (maxlloc_round_up_to_page_size (2 ^ k) sz) \<le> m"
    unfolding r h using least_multiple(3) [OF p] by blast
  moreover have "maxlloc_round_up_to_page_size 4096 1 = 4096"
    by (simp add: maxlloc_round_up_to_page_size_def header_size_def)
  moreover have "maxlloc_round_up_to_page_size 4096 4088 = 4096"
    by (simp add: maxlloc_round_up_to_page_size_def header_size_def)
  moreover have "maxlloc_round_up_to_page_size 4096 4090 = 8192"
    by (simp add: maxlloc_round_up_to_page_size_def header_size_def)
  moreover have "maxlloc_round_up_to_page_size 4096 4089 = 8192"
    by (simp add: maxlloc_round_up_to_page_size_def header_size_def)
  ultimately show ?thesis by blast
qed

text \<open>The theorem at a 4096-byte page and a request of 4089 bytes.\<close>

theorem round_up_least_page_multiple_witness:
  "(12::nat) < 31 \<and> unat (4089 :: size_t) + unat header_size + (2 ^ 12 - 1) < (2::nat) ^ 64
   \<and> (2::nat) ^ 12 dvd unat (maxlloc_round_up_to_page_size (2 ^ 12) 4089)
   \<and> unat (4089 :: size_t) + unat header_size \<le> unat (maxlloc_round_up_to_page_size (2 ^ 12) 4089)
   \<and> unat (maxlloc_round_up_to_page_size (2 ^ 12) 4089) \<le> 8192"
proof -
  have h1: "(12::nat) < 31" by simp
  have h2: "unat (4089 :: size_t) + unat header_size + (2 ^ 12 - 1) < (2::nat) ^ 64"
    by (simp add: header_size_def)
  have h3: "(2::nat) ^ 12 dvd 8192 \<and> unat (4089 :: size_t) + unat header_size \<le> 8192"
    by (simp add: header_size_def)
  show ?thesis
    using h1 h2 h3 round_up_least_page_multiple [OF h1 h2] by blast
qed

text \<open>
  C1 as stated fails twice: a request of 4090 bytes is rounded to 8192, not to 4096
  (4090 + 8 = 4098 exceeds one page), and for a request of \<open>2^64 - 9\<close> bytes the additions
  wrap around and the result is 0, which is below the request.
\<close>

theorem round_up_claim_counterexample:
  "maxlloc_round_up_to_page_size 4096 4090 \<noteq> 4096
   \<and> maxlloc_round_up_to_page_size 4096 18446744073709551607 = 0
   \<and> \<not> (unat (18446744073709551607 :: size_t) + unat header_size
          \<le> unat (maxlloc_round_up_to_page_size 4096 18446744073709551607))"
  by (simp add: maxlloc_round_up_to_page_size_def header_size_def)

section \<open>Loads and stores of the header\<close>

lemma load_size_cong:
  assumes "\<forall>i<8. mem s' (a + of_nat i) = mem s (a + of_nat i)"
  shows "load_size s' a = load_size s a"
proof -
  have "range_mapped (mem s') a 8 = range_mapped (mem s) a 8"
    using assms by (simp add: range_mapped_iff)
  moreover have "map (\<lambda>i. the (mem s' (a + of_nat i))) [0..<8]
                   = map (\<lambda>i. the (mem s (a + of_nat i))) [0..<8]"
    using assms by (intro map_cong) simp_all
  ultimately show ?thesis unfolding load_size_def by (simp only:)
qed

lemma load_size_written:
  assumes "\<forall>i<8. mem s (a + of_nat i) = write_bytes m a (size_bytes v) (a + of_nat i)"
  shows "load_size s a = Inr v"
proof -
  have w: "write_bytes m a (size_bytes v) (a + of_nat i) = Some (size_bytes v ! i)" if "i < 8" for i
    using that by (intro write_bytes_inside) (simp_all add: length_size_bytes)
  have "range_mapped (mem s) a 8"
    using assms w by (simp add: range_mapped_iff)
  moreover have "map (\<lambda>i. the (mem s (a + of_nat i))) [0..<8] = map (\<lambda>i. size_bytes v ! i) [0..<8]"
    using assms w by (intro map_cong) simp_all
  moreover have "map (\<lambda>i. size_bytes v ! i) [0..<8] = size_bytes v"
    using map_nth [of "size_bytes v"] by (simp add: length_size_bytes)
  ultimately show ?thesis by (simp add: load_size_def bytes_size_bytes)
qed

lemma store_size_mapped:
  "range_mapped (mem s) a 8 \<Longrightarrow>
     store_size s a v = Inr (s\<lparr>mem := write_bytes (mem s) a (size_bytes v)\<rparr>)"
  by (simp add: store_size_def)

section \<open>Page multiples\<close>

lemma page_multiple_unat:
  "page_multiple (2 ^ k) w \<longleftrightarrow> unat w mod 2 ^ k = 0"
proof -
  have "uint w mod 2 ^ k = int (unat w mod 2 ^ k)"
    by (simp add: zmod_int)
  then show ?thesis by (simp add: page_multiple_def)
qed

lemma round_up_page_multiple:
  "page_multiple (2 ^ k) (maxlloc_round_up_to_page_size (2 ^ k) sz)"
  by (simp add: page_multiple_unat round_up_mask unat_and_not_mask)

lemma page_multiple_ge:
  assumes "page_multiple (2 ^ k) w" "w \<noteq> 0"
  shows "2 ^ k \<le> unat w"
proof -
  from assms(1) have "2 ^ k dvd unat w"
    by (simp add: page_multiple_unat mod_eq_0_iff_dvd)
  moreover from assms(2) have "0 < unat w"
    by (simp add: unat_gt_0)
  ultimately show ?thesis by (rule dvd_imp_le)
qed

lemma page_multiple_ge_16:
  assumes "page_multiple (2 ^ k) w" "w \<noteq> 0" "4 \<le> k"
  shows "16 \<le> unat w"
proof -
  have "(2::nat) ^ 4 \<le> 2 ^ k"
    using assms(3) by (intro power_increasing) simp_all
  with page_multiple_ge [OF assms(1,2)] show ?thesis by simp
qed

lemma page_multiple_mod_16:
  assumes "page_multiple (2 ^ k) w" "4 \<le> k"
  shows "unat w mod 16 = 0"
proof -
  from assms(1) have "2 ^ k dvd unat w"
    by (simp add: page_multiple_unat mod_eq_0_iff_dvd)
  moreover have "(2::nat) ^ 4 dvd 2 ^ k"
    using assms(2) by (rule le_imp_power_dvd)
  ultimately have "(2::nat) ^ 4 dvd unat w" by (rule dvd_trans [rotated])
  then show ?thesis by (simp add: mod_eq_0_iff_dvd)
qed

lemma unat_payload:
  assumes "page_multiple (2 ^ k) base" "4 \<le> k"
  shows "unat (base + header_size) = unat base + 8"
proof -
  have m: "unat base mod 16 = 0" by (rule page_multiple_mod_16 [OF assms])
  have "unat base < 18446744073709551616" using unsigned_less [of base] by simp
  with m have "unat base + 8 < 18446744073709551616" by presburger
  then show ?thesis by (simp add: header_size_def unat_word_ariths)
qed

lemma payload_not_null:
  assumes "page_multiple (2 ^ k) base" "4 \<le> k"
  shows "base + header_size \<noteq> NULL"
proof
  assume "base + header_size = NULL"
  then have "unat (base + header_size) = 0" by (simp add: NULL_def)
  with unat_payload [OF assms] show False by simp
qed

lemma payload_mod_page:
  assumes "page_multiple (2 ^ k) base" "4 \<le> k"
  shows "uint (base + header_size) mod 2 ^ k = 8"
proof -
  have "(2::nat) ^ 4 \<le> 2 ^ k"
    using assms(2) by (intro power_increasing) simp_all
  then have "(8::nat) < 2 ^ k" by simp
  moreover have "unat base mod 2 ^ k = 0"
    using assms(1) by (simp add: page_multiple_unat)
  ultimately have "(unat base + 8) mod 2 ^ k = 8"
    by (simp add: mod_add_left_eq [symmetric])
  then have "unat (base + header_size) mod 2 ^ k = 8"
    by (simp add: unat_payload [OF assms])
  then have "int (unat (base + header_size) mod 2 ^ k) = 8" by simp
  then show ?thesis by (simp add: zmod_int)
qed

section \<open>The system calls\<close>

lemma os_mmap_denied_iff:
  "fst (os_mmap s r len) = None \<longleftrightarrow> len = 0 \<or> r = None"
  by (simp add: os_mmap_def split: option.splits)

lemma os_mmap_None:
  "len = 0 \<or> r = None \<Longrightarrow> os_mmap s r len = (None, s\<lparr>calls := calls s @ [Mmap len None]\<rparr>)"
  by (auto simp: os_mmap_def)

lemma os_mmap_Some:
  "len \<noteq> 0 \<Longrightarrow>
     os_mmap s (Some base) len =
       (Some base, \<lparr>mem = fill (mem s) base (unat len) (Some 0),
                    calls = calls s @ [Mmap len (Some base)]\<rparr>)"
  by (simp add: os_mmap_def)

lemma fill_inside:
  "i < n \<Longrightarrow> fill m a n v (a + of_nat i) = v"
  by (auto simp: fill_apply)

lemma fill_Some_mapped:
  "range_mapped m a n \<Longrightarrow> range_mapped (fill m b l (Some c)) a n"
  by (simp add: range_mapped_iff fill_apply)

lemma range_mapped_fill:
  "n \<le> l \<Longrightarrow> range_mapped (fill m a l (Some c)) a n"
  by (simp add: range_mapped_iff fill_inside)

section \<open>\<^verbatim>\<open>maxlloc\<close>\<close>

lemma maxlloc_zero:
  "maxlloc pagesize s r 0 = Inr (NULL, s)"
  by (simp add: maxlloc_def)

lemma maxlloc_denied:
  assumes "sz \<noteq> 0" "maxlloc_round_up_to_page_size pagesize sz = 0 \<or> r = None"
  shows "maxlloc pagesize s r sz =
           Inr (NULL, s\<lparr>calls := calls s @ [Mmap (maxlloc_round_up_to_page_size pagesize sz) None]\<rparr>)"
  using assms(1) os_mmap_None [OF assms(2), of s] by (simp add: maxlloc_def)

lemma maxlloc_granted:
  assumes "sz \<noteq> 0" "maxlloc_round_up_to_page_size (2 ^ k) sz \<noteq> 0" "4 \<le> k"
  shows "maxlloc (2 ^ k) s (Some base) sz =
           Inr (base + header_size,
                \<lparr>mem = write_bytes
                         (fill (mem s) base (unat (maxlloc_round_up_to_page_size (2 ^ k) sz)) (Some 0))
                         base (size_bytes (maxlloc_round_up_to_page_size (2 ^ k) sz)),
                 calls = calls s @ [Mmap (maxlloc_round_up_to_page_size (2 ^ k) sz) (Some base)]\<rparr>)"
proof -
  let ?total = "maxlloc_round_up_to_page_size (2 ^ k) sz"
  let ?s1 = "\<lparr>mem = fill (mem s) base (unat ?total) (Some 0),
              calls = calls s @ [Mmap ?total (Some base)]\<rparr>"
  have "16 \<le> unat ?total"
    by (rule page_multiple_ge_16 [OF round_up_page_multiple assms(2,3)])
  then have "range_mapped (mem ?s1) base 8"
    by (simp add: range_mapped_fill)
  then have "store_size ?s1 base ?total
               = Inr (?s1\<lparr>mem := write_bytes (mem ?s1) base (size_bytes ?total)\<rparr>)"
    by (rule store_size_mapped)
  then show ?thesis
    using assms(1) os_mmap_Some [OF assms(2), of s base] by (simp add: maxlloc_def Let_def)
qed

section \<open>Live pointers\<close>

lemma live_not_null: "live pagesize s ptr \<Longrightarrow> ptr \<noteq> NULL"
  by (simp add: live_def)

lemma live_header:
  assumes "live pagesize s ptr"
  obtains block_size where "load_size s (ptr - header_size) = Inr block_size"
    and "block_size \<noteq> 0" and "page_multiple pagesize block_size"
    and "range_mapped (mem s) (ptr - header_size) (unat block_size)"
  using assms by (auto simp: live_def split: sum.splits)

lemma live_cong:
  assumes "mem s' = mem s"
  shows "live pagesize s' ptr = live pagesize s ptr"
proof -
  have "load_size s' (ptr - header_size) = load_size s (ptr - header_size)"
    using assms by (intro load_size_cong) simp
  then show ?thesis by (simp add: live_def assms cong: sum.case_cong)
qed

lemma round_up_zero:
  assumes "3 \<le> k" "k < 64"
  shows "unat (maxlloc_round_up_to_page_size (2 ^ k) 0) = 2 ^ k"
proof -
  have "(2::nat) ^ 3 \<le> 2 ^ k"
    using assms(1) by (intro power_increasing) simp_all
  then have ge: "(8::nat) \<le> 2 ^ k" by simp
  have "(2::nat) ^ k \<le> 2 ^ 63"
    using assms(2) by (intro power_increasing) simp_all
  then have b: "unat (0 :: size_t) + 8 + (2 ^ k - 1) < 2 ^ 64" by simp
  have "(7::nat) div 2 ^ k = 0"
    using ge by (intro div_less) simp
  then have "(7 + 2 ^ k) div (2::nat) ^ k = 1"
    by (simp add: div_add_self2)
  moreover have "(8::nat) + (2 ^ k - 1) = 7 + 2 ^ k" using ge by simp
  ultimately show ?thesis
    using unat_round_up [OF assms(2) b] by simp
qed

lemma live_size_not_zero:
  assumes "4 \<le> k" "k < 64" "page_multiple (2 ^ k) old_size" "old_size \<noteq> 0"
    and "old_size < maxlloc_round_up_to_page_size (2 ^ k) sz"
  shows "sz \<noteq> 0"
proof
  assume "sz = 0"
  with assms(5) have "unat old_size < unat (maxlloc_round_up_to_page_size (2 ^ k) 0)"
    by (simp add: word_less_nat_alt)
  moreover have "unat (maxlloc_round_up_to_page_size (2 ^ k) 0) = 2 ^ k"
    using assms(1,2) by (intro round_up_zero) simp_all
  moreover have "2 ^ k \<le> unat old_size"
    by (rule page_multiple_ge [OF assms(3,4)])
  ultimately show False by simp
qed

section \<open>\<^verbatim>\<open>free\<close>\<close>

lemma free_null: "free s NULL = Inr s"
  by (simp add: free_def)

lemma free_live:
  assumes "live pagesize s ptr"
  shows "\<exists>block_size. load_size s (ptr - header_size) = Inr block_size
           \<and> free s ptr = Inr (os_munmap s (ptr - header_size) block_size)"
proof -
  from assms obtain block_size where "load_size s (ptr - header_size) = Inr block_size"
    by (rule live_header)
  moreover have "ptr \<noteq> NULL" using assms by (rule live_not_null)
  ultimately show ?thesis
    by (simp add: free_def Let_def)
qed

section \<open>C8: \<^verbatim>\<open>free\<close>\<close>

text \<open>
  C8. Releasing the null pointer does nothing, in every state: it returns without a fault
  and the state, system calls included, is what it was. Releasing a valid live pointer
  reads the stored \<^verbatim>\<open>block_size\<close> from the header eight bytes before it and makes exactly
  one system call, \<^verbatim>\<open>munmap\<close> of that many bytes starting at the header address, after
  which none of those bytes is mapped.
\<close>

theorem free_unmaps_block:
  "free s0 NULL = Inr s0
   \<and> (live pagesize s ptr \<longrightarrow>
        (\<exists>block_size s'. load_size s (ptr - header_size) = Inr block_size
             \<and> free s ptr = Inr s'
             \<and> s' = os_munmap s (ptr - header_size) block_size
             \<and> calls s' = calls s @ [Munmap (ptr - header_size) block_size]
             \<and> (\<forall>i < unat block_size. mem s' (ptr - header_size + of_nat i) = None)))"
proof -
  have "free s0 NULL = Inr s0" by (rule free_null)
  moreover have "\<exists>block_size s'. load_size s (ptr - header_size) = Inr block_size
             \<and> free s ptr = Inr s'
             \<and> s' = os_munmap s (ptr - header_size) block_size
             \<and> calls s' = calls s @ [Munmap (ptr - header_size) block_size]
             \<and> (\<forall>i < unat block_size. mem s' (ptr - header_size + of_nat i) = None)"
    if "live pagesize s ptr"
    using free_live [OF that] by (auto simp: os_munmap_def fill_inside)
  ultimately show ?thesis by blast
qed

text \<open>
  Releasing null in the empty address space changes nothing, and the block of the example
  state is released with one \<^verbatim>\<open>munmap\<close> of 16 bytes at \<open>0x100\<close>, which leaves its first
  byte unmapped.
\<close>

theorem free_unmaps_block_witness:
  "free empty_state NULL = Inr empty_state
   \<and> live 16 one_block 264
   \<and> (\<exists>s'. free one_block 264 = Inr s' \<and> calls s' = calls one_block @ [Munmap 256 16]
          \<and> mem s' 256 = None)"
proof -
  have h: "live 16 one_block 264" by code_simp
  have l: "load_size one_block 256 = Inr 16" by code_simp
  from free_unmaps_block [of empty_state 16 one_block 264] h l
  obtain s' where n: "free empty_state NULL = Inr empty_state"
    and f: "free one_block 264 = Inr s'"
    and c: "calls s' = calls one_block @ [Munmap 256 16]"
    and u: "\<forall>i < unat (16 :: size_t). mem s' (256 + of_nat i) = None"
    by (auto simp: header_size_def)
  have "mem s' (256 + of_nat 0) = None" by (rule u [rule_format]) simp
  then have "mem s' 256 = None" by simp
  with h n f c show ?thesis by blast
qed

section \<open>C9: \<^verbatim>\<open>realloc\<close> to size 0\<close>

text \<open>
  C9. For every pointer, \<^verbatim>\<open>realloc(ptr, 0)\<close> is \<^verbatim>\<open>free(ptr)\<close> followed by returning null,
  whatever the page size and the kernel's answer: for the null pointer nothing happens, and
  for a valid live pointer the state afterwards is the one \<^verbatim>\<open>free\<close> leaves and the result
  is null.
\<close>

theorem realloc_zero_is_release:
  "realloc pagesize s r ptr 0 = release_then_null s ptr
   \<and> realloc pagesize s r NULL 0 = Inr (NULL, s)
   \<and> (live pagesize s ptr \<longrightarrow>
        (\<exists>s'. free s ptr = Inr s' \<and> realloc pagesize s r ptr 0 = Inr (NULL, s')))"
proof -
  have "realloc pagesize s r ptr 0 = release_then_null s ptr"
    by (simp add: realloc_def release_then_null_def)
  moreover have "realloc pagesize s r NULL 0 = Inr (NULL, s)"
    by (simp add: realloc_def free_def)
  moreover have "\<exists>s'. free s ptr = Inr s' \<and> realloc pagesize s r ptr 0 = Inr (NULL, s')"
    if "live pagesize s ptr"
    using free_live [OF that] by (auto simp: realloc_def)
  ultimately show ?thesis by blast
qed

text \<open>In the example state, \<^verbatim>\<open>realloc(ptr, 0)\<close> unmaps the block and returns null.\<close>

theorem realloc_zero_is_release_witness:
  "live 16 one_block 264
   \<and> (\<exists>s'. free one_block 264 = Inr s' \<and> realloc 16 one_block None 264 0 = Inr (NULL, s'))"
proof -
  have h: "live 16 one_block 264" by code_simp
  show ?thesis
    using h realloc_zero_is_release [of 16 one_block None 264] by blast
qed

section \<open>C4: \<^verbatim>\<open>realloc\<close> within the mapped capacity\<close>

text \<open>
  C4. For a valid live pointer and a new size greater than 0 whose rounded total does not
  exceed the stored \<^verbatim>\<open>block_size\<close>, \<^verbatim>\<open>realloc\<close> returns the same pointer and the state is
  exactly what it was: no system call is made, so nothing is mapped or unmapped, and every
  byte of memory keeps its value.
\<close>

theorem realloc_fits_in_place:
  assumes "live pagesize s ptr" and "sz \<noteq> 0"
    and "load_size s (ptr - header_size) = Inr old_size"
    and "maxlloc_round_up_to_page_size pagesize sz \<le> old_size"
  shows "realloc pagesize s r ptr sz = Inr (ptr, s)"
proof -
  have "ptr \<noteq> NULL" using assms(1) by (rule live_not_null)
  with assms(2,3,4) show ?thesis
    by (simp add: realloc_def Let_def)
qed

text \<open>On 16-byte pages the example block of 16 bytes already holds a payload of 8 bytes.\<close>

theorem realloc_fits_in_place_witness:
  "live 16 one_block 264 \<and> load_size one_block (264 - header_size) = Inr 16
   \<and> maxlloc_round_up_to_page_size 16 8 \<le> 16
   \<and> realloc 16 one_block (Some 512) 264 8 = Inr (264, one_block)"
proof -
  have h1: "live 16 one_block 264" by code_simp
  have h2: "(8 :: size_t) \<noteq> 0" by simp
  have h3: "load_size one_block (264 - header_size) = Inr 16" by code_simp
  have h4: "maxlloc_round_up_to_page_size 16 8 \<le> 16"
    by (simp add: maxlloc_round_up_to_page_size_def header_size_def)
  show ?thesis
    using h1 h3 h4 realloc_fits_in_place [OF h1 h2 h3 h4, of "Some 512"] by blast
qed

section \<open>C2: \<^verbatim>\<open>realloc\<close> when the kernel refuses the new mapping\<close>

text \<open>
  C2. For a valid live pointer and a new size whose rounded total exceeds the stored
  \<^verbatim>\<open>block_size\<close>, if the kernel refuses the mapping then \<^verbatim>\<open>realloc\<close> returns null and the
  old block is untouched: memory is unchanged byte for byte, so the header still holds the
  old size and the pointer is still a valid live pointer; the only system call made is the
  refused \<^verbatim>\<open>mmap\<close>, and in particular there is no \<^verbatim>\<open>munmap\<close>.
\<close>

theorem realloc_failure_keeps_block:
  assumes "4 \<le> k" and "k < 31" and "live (2 ^ k) s ptr"
    and "load_size s (ptr - header_size) = Inr old_size"
    and "old_size < maxlloc_round_up_to_page_size (2 ^ k) sz"
  shows "\<exists>s'. realloc (2 ^ k) s None ptr sz = Inr (NULL, s')
           \<and> mem s' = mem s
           \<and> load_size s' (ptr - header_size) = Inr old_size
           \<and> live (2 ^ k) s' ptr
           \<and> calls s' = calls s @ [Mmap (maxlloc_round_up_to_page_size (2 ^ k) sz) None]"
proof -
  let ?new = "maxlloc_round_up_to_page_size (2 ^ k) sz"
  let ?s' = "s\<lparr>calls := calls s @ [Mmap ?new None]\<rparr>"
  have nn: "ptr \<noteq> NULL" using assms(3) by (rule live_not_null)
  from assms(3,4) have old: "old_size \<noteq> 0" "page_multiple (2 ^ k) old_size"
    by (auto elim: live_header)
  have k: "k < 64" using assms(2) by simp
  have sz: "sz \<noteq> 0"
    by (rule live_size_not_zero [OF assms(1) k old(2,1) assms(5)])
  have "\<not> ?new \<le> old_size" using assms(5) by simp
  then have "realloc (2 ^ k) s None ptr sz = Inr (NULL, ?s')"
    using nn sz assms(4) by (simp add: realloc_def Let_def os_mmap_None)
  moreover have m: "mem ?s' = mem s" by simp
  moreover have "load_size ?s' (ptr - header_size) = Inr old_size"
    using assms(4) load_size_cong [of ?s' "ptr - header_size" s] by simp
  moreover have "live (2 ^ k) ?s' ptr"
    using assms(3) live_cong [OF m] by simp
  moreover have "calls ?s' = calls s @ [Mmap ?new None]" by simp
  ultimately show ?thesis by blast
qed

text \<open>
  On 16-byte pages, growing the 16-byte example block to a payload of 9 bytes needs 32
  bytes; when the kernel refuses, the block is still there.
\<close>

theorem realloc_failure_keeps_block_witness:
  "live (2 ^ 4) one_block 264
   \<and> (16 :: size_t) < maxlloc_round_up_to_page_size (2 ^ 4) 9
   \<and> (\<exists>s'. realloc (2 ^ 4) one_block None 264 9 = Inr (NULL, s')
          \<and> mem s' = mem one_block \<and> live (2 ^ 4) s' 264)"
proof -
  have h1: "(4::nat) \<le> 4" by simp
  have h2: "(4::nat) < 31" by simp
  have h3: "live (2 ^ 4) one_block 264" by code_simp
  have h4: "load_size one_block (264 - header_size) = Inr 16" by code_simp
  have h5: "(16 :: size_t) < maxlloc_round_up_to_page_size (2 ^ 4) 9"
    by (simp add: maxlloc_round_up_to_page_size_def header_size_def)
  show ?thesis
    using h3 h5 realloc_failure_keeps_block [OF h1 h2 h3 h4 h5] by blast
qed

section \<open>A freshly allocated block\<close>

lemma unat_lt_2p64: "unat (w :: size_t) < 2 ^ 64"
proof -
  have "unat w < 2 ^ LENGTH(64)" by (rule unsigned_less)
  then show ?thesis by simp
qed

lemma offset_neq:
  assumes "i < 2 ^ 64" "j < 2 ^ 64" "i \<noteq> j"
  shows "(a :: addr) + of_nat i \<noteq> a + of_nat j"
  using assms size_t_of_nat_inj [of i j] by auto

lemma write_bytes_mapped:
  "m x \<noteq> None \<Longrightarrow> write_bytes m a bs x \<noteq> None"
  by (induction bs arbitrary: a) simp_all

lemma header_write_payload:
  assumes "8 \<le> i" "i < 2 ^ 64"
  shows "write_bytes m a (size_bytes v) (a + of_nat i) = m (a + of_nat i)"
proof (rule write_bytes_outside, intro allI impI)
  fix j assume "j < length (size_bytes v)"
  then have "j < 8" by (simp add: length_size_bytes)
  with assms show "a + of_nat i \<noteq> a + of_nat j"
    by (intro offset_neq) simp_all
qed

lemma maxlloc_cases:
  assumes "maxlloc (2 ^ k) s r sz = Inr (p, s1)" "p \<noteq> NULL" "4 \<le> k"
  obtains base where "r = Some base" "sz \<noteq> 0" "maxlloc_round_up_to_page_size (2 ^ k) sz \<noteq> 0"
    and "p = base + header_size"
    and "s1 = \<lparr>mem = write_bytes
                        (fill (mem s) base (unat (maxlloc_round_up_to_page_size (2 ^ k) sz)) (Some 0))
                        base (size_bytes (maxlloc_round_up_to_page_size (2 ^ k) sz)),
                calls = calls s @ [Mmap (maxlloc_round_up_to_page_size (2 ^ k) sz) (Some base)]\<rparr>"
proof -
  let ?total = "maxlloc_round_up_to_page_size (2 ^ k) sz"
  have sz: "sz \<noteq> 0"
    using assms(1,2) by (auto simp: maxlloc_zero)
  have "\<not> (?total = 0 \<or> r = None)"
  proof
    assume d: "?total = 0 \<or> r = None"
    from maxlloc_denied [OF sz d, of s] assms(1) have "p = NULL" by simp
    with assms(2) show False ..
  qed
  then obtain base where r: "r = Some base" and t: "?total \<noteq> 0"
    by auto
  show ?thesis
    using assms(1) that [OF r sz t] by (simp add: r maxlloc_granted [OF sz t assms(3)])
qed

lemma fresh_block_payload:
  assumes "8 \<le> i" "i < unat (len :: size_t)"
  shows "write_bytes (fill m base (unat len) (Some 0)) base (size_bytes v) (base + of_nat i) = Some 0"
proof -
  have "i < 2 ^ 64"
    using assms(2) unat_lt_2p64 [of len] by simp
  with assms show ?thesis
    by (simp add: header_write_payload fill_inside)
qed

lemma fresh_block_mapped:
  assumes "n \<le> unat len"
  shows "range_mapped (write_bytes (fill m base (unat len) (Some 0)) base bs) base n"
  using assms by (simp add: range_mapped_iff write_bytes_mapped fill_inside)

lemma range_mapped_offset:
  assumes "range_mapped m a (j + n)"
  shows "range_mapped m (a + of_nat j) n"
  unfolding range_mapped_iff
proof (intro allI impI)
  fix i assume "i < n"
  then have "j + i < j + n" by simp
  with assms have "m (a + of_nat (j + i)) \<noteq> None"
    unfolding range_mapped_iff by blast
  then show "m (a + of_nat j + of_nat i) \<noteq> None"
    by (simp add: add.assoc)
qed

lemma round_up_ge:
  assumes "k < 64" "unat sz + 8 + (2 ^ k - 1) < 2 ^ 64"
  shows "unat sz + 8 \<le> unat (maxlloc_round_up_to_page_size (2 ^ k) sz)"
  using least_multiple(2) [of "2 ^ k" "unat sz + 8"] unat_round_up [OF assms] by simp

section \<open>\<^verbatim>\<open>calloc\<close>\<close>

lemma calloc_null:
  "maxlloc pagesize s r (count * sz) = Inr (NULL, s1) \<Longrightarrow>
     calloc pagesize s r count sz = Inr (NULL, s1)"
  by (simp add: calloc_def Let_def)

lemma calloc_result:
  assumes "calloc (2 ^ k) s r count sz = Inr (p, s')" "p \<noteq> NULL" "4 \<le> k"
  obtains base where "r = Some base" "p = base + header_size"
    and "mem s' = fill (write_bytes
                          (fill (mem s) base (unat (maxlloc_round_up_to_page_size (2 ^ k) (count * sz))) (Some 0))
                          base (size_bytes (maxlloc_round_up_to_page_size (2 ^ k) (count * sz))))
                    p (unat (count * sz)) (Some 0)"
proof -
  from assms(1,2) obtain s1 where m: "maxlloc (2 ^ k) s r (count * sz) = Inr (p, s1)"
    and ms: "memset s1 p 0 (count * sz) = Inr s'"
    by (auto simp: calloc_def Let_def split: sum.splits if_splits)
  from ms have s': "mem s' = fill (mem s1) p (unat (count * sz)) (Some 0)"
    by (auto simp: memset_def split: if_splits)
  from m assms(2,3) obtain base where "r = Some base" "p = base + header_size"
    and "s1 = \<lparr>mem = write_bytes
                        (fill (mem s) base (unat (maxlloc_round_up_to_page_size (2 ^ k) (count * sz))) (Some 0))
                        base (size_bytes (maxlloc_round_up_to_page_size (2 ^ k) (count * sz))),
                calls = calls s @ [Mmap (maxlloc_round_up_to_page_size (2 ^ k) (count * sz)) (Some base)]\<rparr>"
    by (rule maxlloc_cases)
  with s' show ?thesis by (intro that) simp_all
qed

lemma calloc_granted:
  assumes "4 \<le> k" "k < 64" "n = count * sz" "n \<noteq> 0"
    and "unat n + 8 + (2 ^ k - 1) < 2 ^ 64" "page_multiple (2 ^ k) base"
  shows "\<exists>s'. calloc (2 ^ k) s (Some base) count sz = Inr (base + header_size, s')
           \<and> load_size s' base = Inr (maxlloc_round_up_to_page_size (2 ^ k) n)
           \<and> calls s' = calls s @ [Mmap (maxlloc_round_up_to_page_size (2 ^ k) n) (Some base)]"
proof -
  let ?len = "maxlloc_round_up_to_page_size (2 ^ k) n"
  let ?m1 = "write_bytes (fill (mem s) base (unat ?len) (Some 0)) base (size_bytes ?len)"
  let ?s1 = "\<lparr>mem = ?m1, calls = calls s @ [Mmap ?len (Some base)]\<rparr>"
  let ?p = "base + header_size"
  let ?s' = "?s1\<lparr>mem := fill ?m1 ?p (unat n) (Some 0)\<rparr>"
  have ge: "unat n + 8 \<le> unat ?len"
    by (rule round_up_ge [OF assms(2,5)])
  then have len: "?len \<noteq> 0" by (auto simp: unat_eq_0 [symmetric] simp del: unat_eq_0)
  have m: "maxlloc (2 ^ k) s (Some base) n = Inr (?p, ?s1)"
    by (rule maxlloc_granted [OF assms(4) len assms(1)])
  have "range_mapped ?m1 base (8 + unat n)"
    using ge by (intro fresh_block_mapped) simp
  then have "range_mapped ?m1 (base + of_nat 8) (unat n)"
    by (rule range_mapped_offset)
  then have "range_mapped (mem ?s1) ?p (unat n)"
    by (simp add: header_size_def)
  then have ms: "memset ?s1 ?p 0 n = Inr ?s'"
    by (simp add: memset_def)
  have lt: "unat ?len < 2 ^ 64"
    by (rule unat_lt_2p64)
  have "\<forall>i<8. mem ?s' (base + of_nat i) = ?m1 (base + of_nat i)"
  proof (intro allI impI)
    fix i :: nat assume i: "i < 8"
    have "\<not> (\<exists>j<unat n. base + of_nat i = ?p + of_nat j)"
    proof
      assume "\<exists>j<unat n. base + of_nat i = ?p + of_nat j"
      then obtain j where j: "j < unat n" "base + of_nat i = base + of_nat (8 + j)"
        by (auto simp: header_size_def add.assoc)
      have "base + of_nat i \<noteq> base + of_nat (8 + j)"
        using i j(1) ge lt by (intro offset_neq) simp_all
      with j(2) show False by simp
    qed
    then have "fill ?m1 ?p (unat n) (Some 0) (base + of_nat i) = ?m1 (base + of_nat i)"
      by (simp only: fill_apply if_False)
    then show "mem ?s' (base + of_nat i) = ?m1 (base + of_nat i)"
      by simp
  qed
  then have "load_size ?s' base = Inr ?len"
    by (rule load_size_written)
  moreover have "?p \<noteq> NULL"
    by (rule payload_not_null [OF assms(6,1)])
  then have "calloc (2 ^ k) s (Some base) count sz = Inr (?p, ?s')"
    using ms m assms(3) by (simp add: calloc_def Let_def)
  moreover have "calls ?s' = calls s @ [Mmap ?len (Some base)]" by simp
  ultimately show ?thesis by blast
qed

section \<open>C3: \<^verbatim>\<open>calloc\<close> with an overflowing product\<close>

text \<open>
  C3. \<^verbatim>\<open>calloc\<close> multiplies \<open>count\<close> by the element size in \<^verbatim>\<open>size_t\<close>, so the total is the
  true product modulo \<open>2^64\<close>. Whenever the true product exceeds the largest \<^verbatim>\<open>size_t\<close>
  and the wrapped product is nonzero and small enough to be rounded without a second
  wrap-around, a granted \<^verbatim>\<open>calloc\<close> returns a non-null pointer to a block whose mapped
  size, the rounded wrapped product, is below the true product: the allocation is
  silently too small.
\<close>

theorem calloc_wraps_too_small:
  assumes "4 \<le> k" and "k < 31"
    and "2 ^ 64 \<le> unat count * unat sz"
    and "count * sz \<noteq> 0"
    and "unat (count * sz) + 8 + (2 ^ k - 1) < 2 ^ 64"
    and "page_multiple (2 ^ k) base"
  shows "unat (count * sz) = (unat count * unat sz) mod 2 ^ 64
       \<and> (\<exists>s'. calloc (2 ^ k) s (Some base) count sz = Inr (base + header_size, s')
             \<and> base + header_size \<noteq> NULL
             \<and> load_size s' base = Inr (maxlloc_round_up_to_page_size (2 ^ k) (count * sz))
             \<and> calls s' = calls s @ [Mmap (maxlloc_round_up_to_page_size (2 ^ k) (count * sz)) (Some base)]
             \<and> unat (maxlloc_round_up_to_page_size (2 ^ k) (count * sz)) < unat count * unat sz)"
proof -
  have k: "k < 64" using assms(2) by simp
  have "unat (count * sz) = (unat count * unat sz) mod 2 ^ 64"
    by (simp add: unat_word_ariths)
  moreover have "base + header_size \<noteq> NULL"
    by (rule payload_not_null [OF assms(6,1)])
  moreover have "unat (maxlloc_round_up_to_page_size (2 ^ k) (count * sz)) < unat count * unat sz"
    using unat_lt_2p64 [of "maxlloc_round_up_to_page_size (2 ^ k) (count * sz)"] assms(3)
    by (rule less_le_trans)
  ultimately show ?thesis
    using calloc_granted [OF assms(1) k refl assms(4,5,6), of s] by blast
qed

text \<open>
  On 16-byte pages, \<open>2^63 + 1\<close> elements of 2 bytes: the true product is \<open>2^64 + 2\<close>, the
  wrapped product is 2, and a block of 16 bytes is handed out.
\<close>

theorem calloc_wraps_too_small_witness:
  "(2::nat) ^ 64 \<le> unat (9223372036854775809 :: size_t) * unat (2 :: size_t)
   \<and> (9223372036854775809 :: size_t) * 2 = 2
   \<and> (\<exists>s'. calloc (2 ^ 4) empty_state (Some 256) 9223372036854775809 2 = Inr (256 + header_size, s')
          \<and> load_size s' 256 = Inr (maxlloc_round_up_to_page_size (2 ^ 4) 2)
          \<and> unat (maxlloc_round_up_to_page_size (2 ^ 4) 2) < unat (9223372036854775809 :: size_t) * unat (2 :: size_t))
   \<and> maxlloc_round_up_to_page_size (2 ^ 4) 2 = 16"
proof -
  have h1: "(4::nat) \<le> 4" by simp
  have h2: "(4::nat) < 31" by simp
  have h3: "(2::nat) ^ 64 \<le> unat (9223372036854775809 :: size_t) * unat (2 :: size_t)" by simp
  have e: "(9223372036854775809 :: size_t) * 2 = 2" by simp
  have h4: "(9223372036854775809 :: size_t) * 2 \<noteq> 0" by simp
  have h5: "unat ((9223372036854775809 :: size_t) * 2) + 8 + (2 ^ 4 - 1) < (2::nat) ^ 64" by simp
  have h6: "page_multiple (2 ^ 4) (256 :: addr)" by (simp add: page_multiple_def)
  have r: "maxlloc_round_up_to_page_size (2 ^ 4) 2 = 16"
    by (simp add: maxlloc_round_up_to_page_size_def header_size_def)
  show ?thesis
    using h3 e r calloc_wraps_too_small [OF h1 h2 h3 h4 h5 h6, of empty_state]
    unfolding e by blast
qed

section \<open>C6: \<^verbatim>\<open>calloc\<close> returns zeroed memory\<close>

text \<open>
  C6. Let \<open>count\<close> and the element size have a product that is greater than 0 and does not
  overflow. Whenever \<^verbatim>\<open>calloc\<close> returns a non-null pointer, the first \<open>count \<times> size\<close> bytes at
  that pointer are zero, and so is every other byte of the payload region, from the end
  of the header to the end of the mapped block. Whenever the underlying \<^verbatim>\<open>maxlloc\<close> returns
  null, \<^verbatim>\<open>calloc\<close> returns null with the same state. And \<^verbatim>\<open>calloc\<close> does succeed: if the
  kernel grants a page-aligned mapping and the product can be rounded up without
  wrap-around, the result is a non-null pointer.
\<close>

theorem calloc_zeroed:
  assumes "4 \<le> k" and "unat count * unat sz < 2 ^ 64" and "0 < unat count * unat sz"
  shows "(\<forall>p s'. calloc (2 ^ k) s r count sz = Inr (p, s') \<and> p \<noteq> NULL \<longrightarrow>
            (\<forall>i < unat count * unat sz. mem s' (p + of_nat i) = Some 0)
          \<and> (\<forall>i. 8 \<le> i \<and> i < unat (maxlloc_round_up_to_page_size (2 ^ k) (count * sz))
                 \<longrightarrow> mem s' (p - header_size + of_nat i) = Some 0))
       \<and> (\<forall>s1. maxlloc (2 ^ k) s r (count * sz) = Inr (NULL, s1)
            \<longrightarrow> calloc (2 ^ k) s r count sz = Inr (NULL, s1))
       \<and> (k < 31 \<and> unat count * unat sz + 8 + (2 ^ k - 1) < 2 ^ 64
            \<and> (\<exists>base. r = Some base \<and> page_multiple (2 ^ k) base)
            \<longrightarrow> (\<exists>p s'. calloc (2 ^ k) s r count sz = Inr (p, s') \<and> p \<noteq> NULL))"
proof -
  let ?n = "count * sz"
  let ?len = "maxlloc_round_up_to_page_size (2 ^ k) ?n"
  have n: "unat ?n = unat count * unat sz"
    using assms(2) unat_mult_lem [of count sz] by simp
  have "(\<forall>i < unat count * unat sz. mem s' (p + of_nat i) = Some 0)
      \<and> (\<forall>i. 8 \<le> i \<and> i < unat ?len \<longrightarrow> mem s' (p - header_size + of_nat i) = Some 0)"
    if c: "calloc (2 ^ k) s r count sz = Inr (p, s')" and p: "p \<noteq> NULL" for p s'
  proof -
    from c p assms(1) obtain base where b: "p = base + header_size"
      and m: "mem s' = fill (write_bytes (fill (mem s) base (unat ?len) (Some 0)) base (size_bytes ?len))
                         p (unat ?n) (Some 0)"
      by (rule calloc_result)
    have "\<forall>i < unat count * unat sz. mem s' (p + of_nat i) = Some 0"
      by (simp add: m n [symmetric] fill_inside)
    moreover have "mem s' (p - header_size + of_nat i) = Some 0" if "8 \<le> i" "i < unat ?len" for i
      using that by (simp add: m b fill_apply fresh_block_payload)
    ultimately show ?thesis by blast
  qed
  moreover have "\<forall>s1. maxlloc (2 ^ k) s r ?n = Inr (NULL, s1)
                   \<longrightarrow> calloc (2 ^ k) s r count sz = Inr (NULL, s1)"
    by (simp add: calloc_null)
  moreover have "\<exists>p s'. calloc (2 ^ k) s r count sz = Inr (p, s') \<and> p \<noteq> NULL"
    if "k < 31" "unat count * unat sz + 8 + (2 ^ k - 1) < 2 ^ 64"
      and "\<exists>base. r = Some base \<and> page_multiple (2 ^ k) base"
  proof -
    from that(3) obtain base where r: "r = Some base" and a: "page_multiple (2 ^ k) base"
      by blast
    have k: "k < 64" using that(1) by simp
    have nz: "?n \<noteq> 0" using assms(3) n by (auto simp: unat_eq_0 [symmetric] simp del: unat_eq_0)
    have b: "unat ?n + 8 + (2 ^ k - 1) < 2 ^ 64" using that(2) n by simp
    from calloc_granted [OF assms(1) k refl nz b a, of s]
    show ?thesis
      using payload_not_null [OF a assms(1)] unfolding r by blast
  qed
  ultimately show ?thesis by blast
qed

text \<open>
  On 16-byte pages and an empty address space, \<^verbatim>\<open>calloc(2, 3)\<close> returns a non-null pointer
  whose six bytes are zero.
\<close>

theorem calloc_zeroed_witness:
  "unat (2 :: size_t) * unat (3 :: size_t) < (2::nat) ^ 64
   \<and> (\<exists>p s'. calloc (2 ^ 4) empty_state (Some 256) 2 3 = Inr (p, s') \<and> p \<noteq> NULL
          \<and> mem s' p = Some 0 \<and> mem s' (p + 5) = Some 0)"
proof -
  have h1: "(4::nat) \<le> 4" by simp
  have h2: "unat (2 :: size_t) * unat (3 :: size_t) < (2::nat) ^ 64" by simp
  have h3: "0 < unat (2 :: size_t) * unat (3 :: size_t)" by simp
  have g: "(4::nat) < 31 \<and> unat (2 :: size_t) * unat (3 :: size_t) + 8 + (2 ^ 4 - 1) < (2::nat) ^ 64
           \<and> (\<exists>base. Some (256 :: addr) = Some base \<and> page_multiple (2 ^ 4) base)"
    by (simp add: page_multiple_def)
  note t = calloc_zeroed [OF h1 h2 h3, of empty_state "Some 256"]
  from t g obtain p s' where c: "calloc (2 ^ 4) empty_state (Some 256) 2 3 = Inr (p, s')" "p \<noteq> NULL"
    by blast
  with t have z: "\<forall>i < unat (2 :: size_t) * unat (3 :: size_t). mem s' (p + of_nat i) = Some 0"
    by blast
  have "mem s' (p + of_nat 0) = Some 0" using z by (intro z [rule_format]) simp
  moreover have "mem s' (p + of_nat 5) = Some 0" using z by (intro z [rule_format]) simp
  ultimately show ?thesis using h2 c by auto
qed

section \<open>Growing a block\<close>

lemma fill_outside:
  "\<forall>i<n. x \<noteq> a + of_nat i \<Longrightarrow> fill m a n v x = m x"
  by (auto simp: fill_apply)

lemma copy_bytes_mapped:
  "range_mapped m0 s n \<Longrightarrow> m x \<noteq> None \<Longrightarrow> copy_bytes m0 m d s n x \<noteq> None"
  by (induction n arbitrary: d s) auto

lemma mapped_free_disjoint:
  assumes "range_mapped m a n" "range_free m b l" "i < n" "j < l"
  shows "a + of_nat i \<noteq> b + of_nat j"
proof
  assume e: "a + of_nat i = b + of_nat j"
  from assms(1,3) have "m (a + of_nat i) \<noteq> None" by (simp add: range_mapped_iff)
  moreover from assms(2,4) have "m (b + of_nat j) = None" by (simp add: range_free_iff)
  ultimately show False using e by simp
qed

lemma unat_sub_header:
  assumes "8 \<le> unat (w :: size_t)"
  shows "unat (w - header_size) = unat w - 8"
proof -
  have "header_size \<le> w"
    using assms by (simp add: word_le_nat_alt header_size_def)
  then show ?thesis by (simp add: unat_sub header_size_def)
qed

text \<open>
  The memory after the three writes of the growth path: the new mapping, the copied
  payload and the new header.
\<close>

lemma grow_memory:
  fixes base ptr :: addr and old new :: size_t
  defines "m1 \<equiv> \<lambda>m. fill m base (unat new) (Some 0)"
  defines "m2 \<equiv> \<lambda>m. copy_bytes (m1 m) (m1 m) (base + header_size) ptr (unat old - 8)"
  defines "m3 \<equiv> \<lambda>m. write_bytes (m2 m) base (size_bytes new)"
  assumes o: "8 \<le> unat old" "unat old < unat new"
  shows "\<forall>j<unat new. x \<noteq> base + of_nat j \<Longrightarrow> m3 m x = m x"
    and "i < 8 \<Longrightarrow> m3 m (base + of_nat i) = Some (size_bytes new ! i)"
    and "8 \<le> i \<Longrightarrow> i < unat old \<Longrightarrow> m3 m (base + of_nat i) = m1 m (ptr + of_nat (i - 8))"
    and "unat old \<le> i \<Longrightarrow> i < unat new \<Longrightarrow> m3 m (base + of_nat i) = Some 0"
proof -
  have n64: "unat new < 2 ^ 64" by (rule unat_lt_2p64)
  have dst: "base + header_size + of_nat j = base + of_nat (8 + j)" for j
    by (simp add: header_size_def add.assoc)
  {
    assume out: "\<forall>j<unat new. x \<noteq> base + of_nat j"
    have "m3 m x = m2 m x"
      unfolding m3_def using out o by (intro write_bytes_outside) (simp add: length_size_bytes)
    also have "\<dots> = m1 m x"
      unfolding m2_def
    proof (rule copy_bytes_outside, intro allI impI)
      fix j assume "j < unat old - 8"
      then have "8 + j < unat new" using o by simp
      with out show "x \<noteq> base + header_size + of_nat j" unfolding dst by blast
    qed
    also have "\<dots> = m x"
      unfolding m1_def using out by (rule fill_outside)
    finally show "m3 m x = m x" .
  }
  {
    assume "i < 8"
    then show "m3 m (base + of_nat i) = Some (size_bytes new ! i)"
      unfolding m3_def by (intro write_bytes_inside) (simp_all add: length_size_bytes)
  }
  {
    assume i: "8 \<le> i" "i < unat old"
    then have i64: "i < 2 ^ 64" using o n64 by simp
    have "m3 m (base + of_nat i) = m2 m (base + of_nat i)"
      unfolding m3_def by (rule header_write_payload [OF i(1) i64])
    also have "\<dots> = m2 m (base + header_size + of_nat (i - 8))"
      using i(1) by (simp add: header_size_def add.assoc)
    also have "\<dots> = m1 m (ptr + of_nat (i - 8))"
      unfolding m2_def using i o n64 by (intro copy_bytes_inside) simp_all
    finally show "m3 m (base + of_nat i) = m1 m (ptr + of_nat (i - 8))" .
  }
  {
    assume i: "unat old \<le> i" "i < unat new"
    then have i64: "i < 2 ^ 64" and i8: "8 \<le> i" using o n64 by simp_all
    have "m3 m (base + of_nat i) = m2 m (base + of_nat i)"
      unfolding m3_def by (rule header_write_payload [OF i8 i64])
    also have "\<dots> = m1 m (base + of_nat i)"
      unfolding m2_def
    proof (rule copy_bytes_outside, intro allI impI)
      fix j assume "j < unat old - 8"
      then have "8 + j < 2 ^ 64" "i \<noteq> 8 + j" using i o n64 by simp_all
      then show "base + of_nat i \<noteq> base + header_size + of_nat j"
        unfolding dst using i64 by (intro offset_neq) simp_all
    qed
    also have "\<dots> = Some 0"
      unfolding m1_def using i(2) by (rule fill_inside)
    finally show "m3 m (base + of_nat i) = Some 0" .
  }
qed

lemma realloc_grow_run:
  fixes base ptr :: addr and old new :: size_t
  defines "m3 \<equiv> \<lambda>m. write_bytes
                        (copy_bytes (fill m base (unat new) (Some 0)) (fill m base (unat new) (Some 0))
                           (base + header_size) ptr (unat old - 8))
                        base (size_bytes new)"
  assumes nn: "ptr \<noteq> NULL" and sz: "sz \<noteq> 0"
    and l: "load_size s (ptr - header_size) = Inr old"
    and new: "new = maxlloc_round_up_to_page_size pagesize sz"
    and lt: "old < new" and o8: "8 \<le> unat old"
    and mp: "range_mapped (mem s) (ptr - header_size) (unat old)"
    and fr: "range_free (mem s) base (unat new)"
  shows "realloc pagesize s (Some base) ptr sz =
           Inr (base + header_size,
                \<lparr>mem = fill (m3 (mem s)) (ptr - header_size) (unat old) None,
                 calls = calls s @ [Mmap new (Some base), Munmap (ptr - header_size) old]\<rparr>)"
proof -
  let ?oh = "ptr - header_size"
  let ?np = "base + header_size"
  let ?n = "unat old - 8"
  let ?m1 = "fill (mem s) base (unat new) (Some 0)"
  let ?m2 = "copy_bytes ?m1 ?m1 ?np ptr ?n"
  let ?s1 = "\<lparr>mem = ?m1, calls = calls s @ [Mmap new (Some base)]\<rparr>"
  let ?s2 = "?s1\<lparr>mem := ?m2\<rparr>"
  let ?s3 = "?s2\<lparr>mem := m3 (mem s)\<rparr>"
  have ltn: "unat old < unat new" using lt by (simp add: word_less_nat_alt)
  have o: "8 \<le> unat old" "unat old < unat new" using o8 ltn by simp_all
  have nz: "new \<noteq> 0" using lt by auto
  have n: "unat (old - header_size) = ?n" by (rule unat_sub_header [OF o8])
  have mmap: "os_mmap s (Some base) new = (Some base, ?s1)"
    by (rule os_mmap_Some [OF nz])
  have "range_mapped (mem s) ?oh (8 + ?n)" using mp o8 by simp
  then have "range_mapped (mem s) (?oh + of_nat 8) ?n" by (rule range_mapped_offset)
  then have src0: "range_mapped (mem s) ptr ?n" by (simp add: header_size_def)
  then have src: "range_mapped ?m1 ptr ?n" by (rule fill_Some_mapped)
  have "range_mapped ?m1 base (8 + ?n)" using o by (intro range_mapped_fill) simp
  then have "range_mapped ?m1 (base + of_nat 8) ?n" by (rule range_mapped_offset)
  then have dst: "range_mapped ?m1 ?np ?n" by (simp add: header_size_def)
  have cpy: "memcpy ?s1 ?np ptr (old - header_size) = Inr ?s2"
    using src dst by (simp add: memcpy_def n)
  have "range_mapped ?m1 base 8" using o by (intro range_mapped_fill) simp
  then have "range_mapped ?m2 base 8"
    using src by (simp add: range_mapped_iff copy_bytes_mapped)
  then have sto: "store_size ?s2 base new = Inr ?s3"
    by (simp add: store_size_def m3_def)
  have "\<forall>i<8. mem ?s3 (?oh + of_nat i) = mem s (?oh + of_nat i)"
  proof (intro allI impI)
    fix i :: nat assume i: "i < 8"
    have "\<forall>j<unat new. ?oh + of_nat i \<noteq> base + of_nat j"
      using i o8 by (intro allI impI mapped_free_disjoint [OF mp fr]) simp_all
    then have "m3 (mem s) (?oh + of_nat i) = mem s (?oh + of_nat i)"
      unfolding m3_def by (rule grow_memory(1) [OF o])
    then show "mem ?s3 (?oh + of_nat i) = mem s (?oh + of_nat i)" by simp
  qed
  then have "load_size ?s3 ?oh = load_size s ?oh" by (rule load_size_cong)
  then have fre: "free ?s3 ptr = Inr (os_munmap ?s3 ?oh old)"
    using nn l by (simp add: free_def Let_def)
  have "\<not> new \<le> old" using lt by simp
  then show ?thesis
    using nn sz l new [symmetric] mmap cpy sto fre
    by (simp add: realloc_def Let_def os_munmap_def)
qed

section \<open>C5: \<^verbatim>\<open>realloc\<close> into a larger block\<close>

text \<open>
  C5. For a valid live pointer and a new size whose rounded total exceeds the stored
  \<^verbatim>\<open>block_size\<close>, when the kernel grants a fresh page-aligned mapping \<^verbatim>\<open>realloc\<close> returns
  the payload pointer of the new mapping, which is neither null nor the old pointer. It
  has copied exactly \<open>old block_size - 8\<close> bytes from the old payload to the new payload, so
  the first \<open>min (old payload size) (new size)\<close> bytes are the original content, and the rest
  of the new block is still zero. The new header holds the new total, the old block has
  been released with one \<^verbatim>\<open>munmap\<close> of its header address and stored size, and none of its
  bytes is mapped any more.
\<close>

theorem realloc_grows_and_copies:
  assumes "4 \<le> k" and "k < 31" and "live (2 ^ k) s ptr"
    and "load_size s (ptr - header_size) = Inr old_size"
    and "new_size = maxlloc_round_up_to_page_size (2 ^ k) sz"
    and "old_size < new_size"
    and "fresh_mapping (2 ^ k) s base new_size"
  shows "\<exists>s'. realloc (2 ^ k) s (Some base) ptr sz = Inr (base + header_size, s')
           \<and> base + header_size \<noteq> ptr
           \<and> base + header_size \<noteq> NULL
           \<and> (\<forall>i < unat old_size - 8. mem s' (base + header_size + of_nat i) = mem s (ptr + of_nat i))
           \<and> (\<forall>i < min (unat old_size - 8) (unat sz).
                  mem s' (base + header_size + of_nat i) = mem s (ptr + of_nat i))
           \<and> (\<forall>i. unat old_size \<le> i \<and> i < unat new_size \<longrightarrow> mem s' (base + of_nat i) = Some 0)
           \<and> load_size s' base = Inr new_size
           \<and> (\<forall>i < unat old_size. mem s' (ptr - header_size + of_nat i) = None)
           \<and> calls s' = calls s @ [Mmap new_size (Some base), Munmap (ptr - header_size) old_size]"
proof -
  let ?oh = "ptr - header_size"
  let ?np = "base + header_size"
  let ?m1 = "fill (mem s) base (unat new_size) (Some 0)"
  let ?m3 = "write_bytes (copy_bytes ?m1 ?m1 ?np ptr (unat old_size - 8)) base (size_bytes new_size)"
  let ?m4 = "fill ?m3 ?oh (unat old_size) None"
  let ?s' = "\<lparr>mem = ?m4,
              calls = calls s @ [Mmap new_size (Some base), Munmap ?oh old_size]\<rparr>"
  have k: "k < 64" using assms(2) by simp
  have nn: "ptr \<noteq> NULL" using assms(3) by (rule live_not_null)
  from assms(3,4) have old: "old_size \<noteq> 0" "page_multiple (2 ^ k) old_size"
    and mp: "range_mapped (mem s) ?oh (unat old_size)"
    by (auto elim: live_header)
  from assms(7) have al: "page_multiple (2 ^ k) base"
    and fr: "range_free (mem s) base (unat new_size)"
    by (simp_all add: fresh_mapping_def)
  have o16: "16 \<le> unat old_size"
    by (rule page_multiple_ge_16 [OF old(2,1) assms(1)])
  then have o8: "8 \<le> unat old_size" by simp
  have ltn: "unat old_size < unat new_size"
    using assms(6) by (simp add: word_less_nat_alt)
  have o: "8 \<le> unat old_size" "unat old_size < unat new_size"
    using o8 ltn by simp_all
  have n64: "unat new_size < 2 ^ 64" by (rule unat_lt_2p64)
  have sz: "sz \<noteq> 0"
    using assms(5,6) by (intro live_size_not_zero [OF assms(1) k old(2,1)]) simp
  have disj: "?oh + of_nat i \<noteq> base + of_nat j" if "i < unat old_size" "j < unat new_size" for i j
    using that by (rule mapped_free_disjoint [OF mp fr])
  have oh: "?oh + of_nat (8 + i) = ptr + of_nat i" for i
    by (simp add: header_size_def)
  have np: "?np + of_nat i = base + of_nat (8 + i)" for i
    by (simp add: header_size_def add.assoc)
  \<comment> \<open>addresses of the new block are not touched by the final \<^verbatim>\<open>munmap\<close>\<close>
  have new_block: "?m4 (base + of_nat j) = ?m3 (base + of_nat j)" if "j < unat new_size" for j
  proof (rule fill_outside, intro allI impI)
    fix i assume "i < unat old_size"
    then show "base + of_nat j \<noteq> ?oh + of_nat i"
      using disj [of i j] that by auto
  qed
  have run: "realloc (2 ^ k) s (Some base) ptr sz = Inr (?np, ?s')"
    by (rule realloc_grow_run [OF nn sz assms(4,5,6) o8 mp fr])
  have neq: "?np \<noteq> ptr"
  proof
    assume "?np = ptr"
    then have "?oh + of_nat 0 = base + of_nat 0" by auto
    moreover have "?oh + of_nat 0 \<noteq> base + of_nat 0"
      using o by (intro disj) simp_all
    ultimately show False by simp
  qed
  have nonnull: "?np \<noteq> NULL"
    by (rule payload_not_null [OF al assms(1)])
  have copied: "mem ?s' (?np + of_nat i) = mem s (ptr + of_nat i)" if "i < unat old_size - 8" for i
  proof -
    from that have i: "8 \<le> 8 + i" "8 + i < unat old_size" "8 + i < unat new_size"
      using o by simp_all
    have "?m4 (base + of_nat (8 + i)) = ?m3 (base + of_nat (8 + i))"
      by (rule new_block [OF i(3)])
    also have "\<dots> = ?m1 (ptr + of_nat (8 + i - 8))"
      by (rule grow_memory(3) [OF o i(1,2)])
    also have "\<dots> = ?m1 (?oh + of_nat (8 + i))"
      unfolding oh by simp
    also have "\<dots> = mem s (?oh + of_nat (8 + i))"
      using disj [OF i(2)] by (intro fill_outside) simp
    finally show ?thesis unfolding np oh by simp
  qed
  have zero: "mem ?s' (base + of_nat i) = Some 0" if "unat old_size \<le> i" "i < unat new_size" for i
    using new_block [OF that(2)] grow_memory(4) [OF o that] by simp
  have "\<forall>i<8. mem ?s' (base + of_nat i)
                 = write_bytes (copy_bytes ?m1 ?m1 ?np ptr (unat old_size - 8)) base
                     (size_bytes new_size) (base + of_nat i)"
  proof (intro allI impI)
    fix i :: nat assume "i < 8"
    then have "i < unat new_size" using o by simp
    then show "mem ?s' (base + of_nat i)
                 = write_bytes (copy_bytes ?m1 ?m1 ?np ptr (unat old_size - 8)) base
                     (size_bytes new_size) (base + of_nat i)"
      using new_block by simp
  qed
  then have header: "load_size ?s' base = Inr new_size"
    by (rule load_size_written)
  have gone: "mem ?s' (?oh + of_nat i) = None" if "i < unat old_size" for i
    using that by (simp add: fill_inside)
  have trace: "calls ?s' = calls s @ [Mmap new_size (Some base), Munmap ?oh old_size]"
    by simp
  from copied have copied_min:
    "\<forall>i < min (unat old_size - 8) (unat sz). mem ?s' (?np + of_nat i) = mem s (ptr + of_nat i)"
    by simp
  show ?thesis
    using run neq nonnull copied copied_min zero header gone trace by blast
qed

text \<open>
  On 16-byte pages, growing the 16-byte example block to a payload of 9 bytes with a new
  mapping at \<open>0x200\<close>: the result is \<open>0x208\<close>, the new header holds 32, the first payload
  byte is carried over and the old header address is unmapped.
\<close>

theorem realloc_grows_and_copies_witness:
  "live (2 ^ 4) one_block 264
   \<and> fresh_mapping (2 ^ 4) one_block 512 32
   \<and> (\<exists>s'. realloc (2 ^ 4) one_block (Some 512) 264 9 = Inr (512 + header_size, s')
          \<and> load_size s' 512 = Inr 32
          \<and> mem s' (512 + header_size + of_nat 0) = mem one_block (264 + of_nat 0)
          \<and> mem s' (264 - header_size + of_nat 0) = None
          \<and> calls s' = calls one_block @ [Mmap 32 (Some 512), Munmap (264 - header_size) 16])"
proof -
  have h1: "(4::nat) \<le> 4" by simp
  have h2: "(4::nat) < 31" by simp
  have h3: "live (2 ^ 4) one_block 264" by code_simp
  have h4: "load_size one_block (264 - header_size) = Inr 16" by code_simp
  have h5: "(32 :: size_t) = maxlloc_round_up_to_page_size (2 ^ 4) 9"
    by (simp add: maxlloc_round_up_to_page_size_def header_size_def)
  have h6: "(16 :: size_t) < 32" by simp
  have h7: "fresh_mapping (2 ^ 4) one_block 512 32" by code_simp
  have i1: "(0::nat) < unat (16 :: size_t) - 8" by simp
  have i2: "(0::nat) < unat (16 :: size_t)" by simp
  show ?thesis
    using h3 h7 i1 i2 realloc_grows_and_copies [OF h1 h2 h3 h4 h5 h6 h7] by blast
qed

section \<open>C7: what \<^verbatim>\<open>maxlloc\<close> returns\<close>

text \<open>
  C7. On a machine whose pages are at least 16 bytes and whose kernel hands out page-aligned
  mappings, \<^verbatim>\<open>maxlloc\<close> never faults, and it returns the null pointer if and only if the
  requested size is 0 or the kernel refuses the mapping request. A request of size 0 leaves
  the state as it was and makes no system call. When the kernel refuses, the only effect is
  the refused \<^verbatim>\<open>mmap\<close> call in the trace: memory is unchanged, nothing was mapped. In every
  other case the result is a non-null payload pointer: it lies \<^verbatim>\<open>sizeof(MaxllocHeader)\<close>
  bytes past the base the kernel granted, exactly one \<^verbatim>\<open>mmap\<close> of the rounded size was
  made, every byte of the block is mapped, the header holds the rounded size, the payload
  is zero, the pointer is a valid live pointer, and memory outside the block is unchanged.
\<close>

theorem maxlloc_null_iff:
  assumes "4 \<le> k"
    and "case r of None \<Rightarrow> True | Some base \<Rightarrow> page_multiple (2 ^ k) base"
  shows "\<exists>p s'. maxlloc (2 ^ k) s r sz = Inr (p, s')
           \<and> (p = NULL \<longleftrightarrow>
                sz = 0 \<or> fst (os_mmap s r (maxlloc_round_up_to_page_size (2 ^ k) sz)) = None)
           \<and> (sz = 0 \<longrightarrow> s' = s)
           \<and> (p = NULL \<longrightarrow> mem s' = mem s)
           \<and> (p = NULL \<and> sz \<noteq> 0 \<longrightarrow>
                calls s' = calls s @ [Mmap (maxlloc_round_up_to_page_size (2 ^ k) sz) None])
           \<and> (p \<noteq> NULL \<longrightarrow>
                r = Some (p - header_size)
                \<and> calls s' = calls s @ [Mmap (maxlloc_round_up_to_page_size (2 ^ k) sz)
                                           (Some (p - header_size))]
                \<and> range_mapped (mem s') (p - header_size)
                      (unat (maxlloc_round_up_to_page_size (2 ^ k) sz))
                \<and> load_size s' (p - header_size) = Inr (maxlloc_round_up_to_page_size (2 ^ k) sz)
                \<and> (\<forall>i. 8 \<le> i \<and> i < unat (maxlloc_round_up_to_page_size (2 ^ k) sz)
                       \<longrightarrow> mem s' (p - header_size + of_nat i) = Some 0)
                \<and> (\<forall>x. (\<forall>j < unat (maxlloc_round_up_to_page_size (2 ^ k) sz).
                             x \<noteq> p - header_size + of_nat j)
                       \<longrightarrow> mem s' x = mem s x)
                \<and> live (2 ^ k) s' p)"
proof -
  let ?total = "maxlloc_round_up_to_page_size (2 ^ k) sz"
  consider (zero) "sz = 0"
    | (denied) "sz \<noteq> 0" "?total = 0 \<or> r = None"
    | (granted) base where "sz \<noteq> 0" "?total \<noteq> 0" "r = Some base"
    by (cases r) auto
  then show ?thesis
  proof cases
    case zero
    then show ?thesis by (simp add: maxlloc_zero)
  next
    case denied
    then show ?thesis
      by (simp add: maxlloc_denied os_mmap_denied_iff)
  next
    case granted
    let ?m = "write_bytes (fill (mem s) base (unat ?total) (Some 0)) base (size_bytes ?total)"
    let ?s' = "\<lparr>mem = ?m, calls = calls s @ [Mmap ?total (Some base)]\<rparr>"
    let ?p = "base + header_size"
    from assms(2) granted(3) have al: "page_multiple (2 ^ k) base" by simp
    then have nn: "?p \<noteq> NULL"
      using assms(1) by (rule payload_not_null)
    have run: "maxlloc (2 ^ k) s r sz = Inr (?p, ?s')"
      unfolding granted(3) by (rule maxlloc_granted [OF granted(1,2) assms(1)])
    have t16: "16 \<le> unat ?total"
      by (rule page_multiple_ge_16 [OF round_up_page_multiple granted(2) assms(1)])
    have pb: "?p - header_size = base" by simp
    have mapped: "range_mapped (mem ?s') base (unat ?total)"
      by (simp add: fresh_block_mapped)
    have "\<forall>i<8. mem ?s' (base + of_nat i)
            = write_bytes (fill (mem s) base (unat ?total) (Some 0)) base (size_bytes ?total)
                (base + of_nat i)"
      by simp
    then have header: "load_size ?s' base = Inr ?total"
      by (rule load_size_written)
    have payload: "mem ?s' (base + of_nat i) = Some 0" if "8 \<le> i" "i < unat ?total" for i
      using that by (simp add: fresh_block_payload)
    have frame: "mem ?s' x = mem s x" if out: "\<forall>j < unat ?total. x \<noteq> base + of_nat j" for x
    proof -
      have "?m x = fill (mem s) base (unat ?total) (Some 0) x"
        using out t16 by (intro write_bytes_outside) (simp add: length_size_bytes)
      also have "\<dots> = mem s x"
        using out by (rule fill_outside)
      finally show ?thesis by simp
    qed
    have alive: "live (2 ^ k) ?s' ?p"
      using nn al header granted(2) round_up_page_multiple [of k sz] mapped
      by (simp add: live_def)
    have notdenied: "fst (os_mmap s r ?total) \<noteq> None"
      using granted by (simp add: os_mmap_denied_iff)
    show ?thesis
      using run nn granted(1,3) notdenied mapped header payload frame alive
      by (intro exI [of _ ?p] exI [of _ ?s']) (simp add: pb)
  qed
qed

text \<open>
  On 16-byte pages and an empty address space: a granted request of one byte returns a
  live pointer 8 bytes past the granted base \<open>0x100\<close>, with a header of 16 and one \<^verbatim>\<open>mmap\<close>
  call; a refused one returns null and maps nothing; and a request of size 0 returns null
  and changes nothing.
\<close>

theorem maxlloc_null_iff_witness:
  "(\<exists>p s'. maxlloc (2 ^ 4) empty_state (Some 256) 1 = Inr (p, s') \<and> p \<noteq> NULL
          \<and> p - header_size = 256 \<and> load_size s' 256 = Inr 16
          \<and> calls s' = [Mmap 16 (Some 256)] \<and> live (2 ^ 4) s' p)
   \<and> (\<exists>s'. maxlloc (2 ^ 4) empty_state None 1 = Inr (NULL, s') \<and> mem s' = mem empty_state
          \<and> calls s' = [Mmap 16 None])
   \<and> (\<exists>p. maxlloc (2 ^ 4) empty_state (Some 256) 0 = Inr (p, empty_state) \<and> p = NULL)"
proof -
  have h1: "(4::nat) \<le> 4" by simp
  have h2: "case Some (256 :: addr) of None \<Rightarrow> True | Some base \<Rightarrow> page_multiple (2 ^ 4) base"
    by (simp add: page_multiple_def)
  have h3: "case (None :: addr option) of None \<Rightarrow> True | Some base \<Rightarrow> page_multiple (2 ^ 4) base"
    by simp
  have r: "maxlloc_round_up_to_page_size 16 1 = 16"
    by (simp add: maxlloc_round_up_to_page_size_def header_size_def)
  have e: "calls empty_state = []" by (simp add: empty_state_def)
  have "\<exists>p s'. maxlloc (2 ^ 4) empty_state (Some 256) 1 = Inr (p, s') \<and> p \<noteq> NULL
          \<and> p - header_size = 256 \<and> load_size s' 256 = Inr 16
          \<and> calls s' = [Mmap 16 (Some 256)] \<and> live (2 ^ 4) s' p"
    using maxlloc_null_iff [OF h1 h2, of empty_state 1] by (auto simp: os_mmap_denied_iff r e)
  moreover have "\<exists>s'. maxlloc (2 ^ 4) empty_state None 1 = Inr (NULL, s') \<and> mem s' = mem empty_state
          \<and> calls s' = [Mmap 16 None]"
    using maxlloc_null_iff [OF h1 h3, of empty_state 1] by (auto simp: os_mmap_denied_iff r e)
  moreover have "\<exists>p. maxlloc (2 ^ 4) empty_state (Some 256) 0 = Inr (p, empty_state) \<and> p = NULL"
    using maxlloc_null_iff [OF h1 h2, of empty_state 0] by auto
  ultimately show ?thesis by blast
qed

section \<open>Alignment of payload pointers\<close>

lemma payload_aligned:
  assumes "page_multiple (2 ^ k) (q - header_size)" "4 \<le> k"
  shows "uint q mod 2 ^ k = 8"
  using payload_mod_page [OF assms] by simp

lemma maxlloc_pointer:
  assumes "maxlloc (2 ^ k) s r sz = Inr (q, s')" "q \<noteq> NULL" "4 \<le> k"
  shows "r = Some (q - header_size)"
proof -
  from assms obtain base where "r = Some base" "q = base + header_size"
    by (rule maxlloc_cases)
  then show ?thesis by simp
qed

lemma calloc_pointer:
  assumes "calloc (2 ^ k) s r count sz = Inr (q, s')" "q \<noteq> NULL" "4 \<le> k"
  shows "r = Some (q - header_size)"
proof -
  from assms obtain base where "r = Some base" "q = base + header_size"
    by (rule calloc_result)
  then show ?thesis by simp
qed

lemma realloc_pointer:
  assumes "realloc (2 ^ k) s r ptr sz = Inr (q, s')" "q \<noteq> NULL" "4 \<le> k"
  shows "q = ptr \<or> r = Some (q - header_size)"
proof -
  consider (zero) "sz = 0" | (null) "sz \<noteq> 0" "ptr = NULL" | (block) "sz \<noteq> 0" "ptr \<noteq> NULL"
    by blast
  then show ?thesis
  proof cases
    case zero
    with assms(1,2) show ?thesis
      by (auto simp: realloc_def split: sum.splits)
  next
    case null
    with assms(1) have "maxlloc (2 ^ k) s r sz = Inr (q, s')"
      by (simp add: realloc_def)
    then have "r = Some (q - header_size)"
      using assms(2,3) by (rule maxlloc_pointer)
    then show ?thesis ..
  next
    case block
    with assms(1,2) show ?thesis
      by (auto simp: realloc_def Let_def os_mmap_def split: sum.splits if_splits option.splits)
  qed
qed

section \<open>C10: the alignment of every pointer handed out\<close>

text \<open>
  C10. On a machine whose pages are at least 16 bytes and whose kernel hands out
  page-aligned mappings, every non-null pointer returned by \<^verbatim>\<open>maxlloc\<close>, \<^verbatim>\<open>calloc\<close> or
  \<^verbatim>\<open>realloc\<close> lies exactly \<^verbatim>\<open>sizeof(MaxllocHeader)\<close> = 8 bytes past a page-aligned address:
  the base of the mapping the kernel has just granted, or, when \<^verbatim>\<open>realloc\<close> keeps the
  block, the base of the block of the valid live pointer it was given. So every such
  pointer is congruent to 8 modulo the page size.
\<close>

theorem returned_pointer_alignment:
  assumes "4 \<le> k"
    and "case r of None \<Rightarrow> True | Some base \<Rightarrow> page_multiple (2 ^ k) base"
    and "ptr = NULL \<or> live (2 ^ k) s ptr"
  shows "(\<forall>q s'. maxlloc (2 ^ k) s r sz = Inr (q, s') \<and> q \<noteq> NULL \<longrightarrow>
            r = Some (q - header_size)
            \<and> page_multiple (2 ^ k) (q - header_size) \<and> uint q mod 2 ^ k = 8)
       \<and> (\<forall>q s'. calloc (2 ^ k) s r count sz = Inr (q, s') \<and> q \<noteq> NULL \<longrightarrow>
            r = Some (q - header_size)
            \<and> page_multiple (2 ^ k) (q - header_size) \<and> uint q mod 2 ^ k = 8)
       \<and> (\<forall>q s'. realloc (2 ^ k) s r ptr sz = Inr (q, s') \<and> q \<noteq> NULL \<longrightarrow>
            (q = ptr \<or> r = Some (q - header_size))
            \<and> page_multiple (2 ^ k) (q - header_size) \<and> uint q mod 2 ^ k = 8)"
proof -
  have granted: "page_multiple (2 ^ k) (q - header_size)" if "r = Some (q - header_size)" for q
    using assms(2) that by simp
  have kept: "page_multiple (2 ^ k) (q - header_size)" if "q = ptr" "q \<noteq> NULL" for q
    using assms(3) that by (auto simp: live_def)
  have "r = Some (q - header_size) \<and> page_multiple (2 ^ k) (q - header_size) \<and> uint q mod 2 ^ k = 8"
    if "maxlloc (2 ^ k) s r sz = Inr (q, s')" "q \<noteq> NULL" for q s'
    using maxlloc_pointer [OF that assms(1)] granted payload_aligned [OF _ assms(1)] by blast
  moreover
  have "r = Some (q - header_size) \<and> page_multiple (2 ^ k) (q - header_size) \<and> uint q mod 2 ^ k = 8"
    if "calloc (2 ^ k) s r count sz = Inr (q, s')" "q \<noteq> NULL" for q s'
    using calloc_pointer [OF that assms(1)] granted payload_aligned [OF _ assms(1)] by blast
  moreover
  have "(q = ptr \<or> r = Some (q - header_size))
          \<and> page_multiple (2 ^ k) (q - header_size) \<and> uint q mod 2 ^ k = 8"
    if "realloc (2 ^ k) s r ptr sz = Inr (q, s')" "q \<noteq> NULL" for q s'
    using realloc_pointer [OF that assms(1)] granted kept [OF _ that(2)]
      payload_aligned [OF _ assms(1)] by blast
  ultimately show ?thesis by blast
qed

text \<open>
  On 16-byte pages: the pointer \<^verbatim>\<open>maxlloc(1)\<close> returns for a mapping at \<open>0x100\<close>, and the
  pointer \<^verbatim>\<open>realloc\<close> returns when it keeps the example block, are 8 modulo 16.
\<close>

theorem returned_pointer_alignment_witness:
  "(\<exists>q s'. maxlloc (2 ^ 4) empty_state (Some 256) 1 = Inr (q, s') \<and> q \<noteq> NULL
           \<and> page_multiple (2 ^ 4) (q - header_size) \<and> uint q mod 2 ^ 4 = 8)
   \<and> (\<exists>q s'. realloc (2 ^ 4) one_block (Some 512) 264 8 = Inr (q, s') \<and> q \<noteq> NULL
           \<and> page_multiple (2 ^ 4) (q - header_size) \<and> uint q mod 2 ^ 4 = 8)"
proof -
  have h1: "(4::nat) \<le> 4" by simp
  have h2: "case Some (256 :: addr) of None \<Rightarrow> True | Some base \<Rightarrow> page_multiple (2 ^ 4) base"
    by (simp add: page_multiple_def)
  have h2': "case Some (512 :: addr) of None \<Rightarrow> True | Some base \<Rightarrow> page_multiple (2 ^ 4) base"
    by (simp add: page_multiple_def)
  have h3: "(NULL :: addr) = NULL \<or> live (2 ^ 4) empty_state NULL" by simp
  have l: "live (2 ^ 4) one_block 264" by code_simp
  then have h3': "(264 :: addr) = NULL \<or> live (2 ^ 4) one_block 264" ..
  have s1: "(1 :: size_t) \<noteq> 0" by simp
  have r1: "maxlloc_round_up_to_page_size (2 ^ 4) 1 \<noteq> 0"
    by (simp add: maxlloc_round_up_to_page_size_def header_size_def)
  have a: "maxlloc (2 ^ 4) empty_state (Some 256) 1 = Inr (256 + header_size,
             \<lparr>mem = write_bytes
                      (fill (mem empty_state) 256 (unat (maxlloc_round_up_to_page_size (2 ^ 4) 1)) (Some 0))
                      256 (size_bytes (maxlloc_round_up_to_page_size (2 ^ 4) 1)),
              calls = calls empty_state @ [Mmap (maxlloc_round_up_to_page_size (2 ^ 4) 1) (Some 256)]\<rparr>)"
    by (rule maxlloc_granted [OF s1 r1 h1])
  have an: "(256 :: addr) + header_size \<noteq> NULL" by (simp add: header_size_def NULL_def)
  have s8: "(8 :: size_t) \<noteq> 0" by simp
  have l8: "load_size one_block (264 - header_size) = Inr 16" by code_simp
  have r8: "maxlloc_round_up_to_page_size (2 ^ 4) 8 \<le> 16"
    by (simp add: maxlloc_round_up_to_page_size_def header_size_def)
  have b: "realloc (2 ^ 4) one_block (Some 512) 264 8 = Inr (264, one_block)"
    using live_not_null [OF l] s8 l8 r8 by (simp add: realloc_def Let_def)
  have bn: "(264 :: addr) \<noteq> NULL" by (simp add: NULL_def)
  have "\<exists>q s'. maxlloc (2 ^ 4) empty_state (Some 256) 1 = Inr (q, s') \<and> q \<noteq> NULL
           \<and> page_multiple (2 ^ 4) (q - header_size) \<and> uint q mod 2 ^ 4 = 8"
    using a an returned_pointer_alignment [OF h1 h2 h3, of 1] by blast
  moreover
  have "\<exists>q s'. realloc (2 ^ 4) one_block (Some 512) 264 8 = Inr (q, s') \<and> q \<noteq> NULL
           \<and> page_multiple (2 ^ 4) (q - header_size) \<and> uint q mod 2 ^ 4 = 8"
    using b bn returned_pointer_alignment [OF h1 h2' h3', of 8] by blast
  ultimately show ?thesis by blast
qed

section \<open>A product close to the largest \<^verbatim>\<open>size_t\<close>\<close>

text \<open>
  The product need not overflow for the rounding to wrap: with 4096-byte pages,
  \<^verbatim>\<open>calloc(SIZE_MAX, 1)\<close> is granted a block of one page and then faults in \<^verbatim>\<open>memset\<close>,
  which runs past the end of the block. No pointer is returned in that case.
\<close>

lemma calloc_near_max_faults:
  "calloc (2 ^ 12) empty_state (Some 4096) 18446744073709551615 1 = Inl Segfault"
proof -
  let ?m1 = "write_bytes (fill (mem empty_state) 4096 (unat (4096 :: size_t)) (Some 0)) 4096
               (size_bytes 4096)"
  let ?s1 = "\<lparr>mem = ?m1, calls = calls empty_state @ [Mmap 4096 (Some 4096)]\<rparr>"
  have r: "maxlloc_round_up_to_page_size (2 ^ 12) 18446744073709551615 = 4096"
    by (simp add: maxlloc_round_up_to_page_size_def header_size_def)
  have m: "maxlloc (2 ^ 12) empty_state (Some 4096) 18446744073709551615 = Inr (4096 + header_size, ?s1)"
    using maxlloc_granted [of 18446744073709551615 12 empty_state 4096] unfolding r by simp
  have out: "(4096 :: addr) + of_nat 4096 \<noteq> 4096 + of_nat j" if "j < 4096" for j
    using that by (intro offset_neq) simp_all
  have "?m1 (4096 + of_nat 4096) = fill (mem empty_state) 4096 (unat (4096 :: size_t)) (Some 0)
                                      (4096 + of_nat 4096)"
    using out by (intro write_bytes_outside) (simp add: length_size_bytes)
  also have "\<dots> = mem empty_state (4096 + of_nat 4096)"
    using out by (intro fill_outside) simp
  finally have "?m1 (4096 + header_size + of_nat 4088) = None"
    by (simp add: empty_state_def header_size_def)
  moreover have "4088 < unat (18446744073709551615 :: size_t)" by simp
  ultimately have "\<not> range_mapped (mem ?s1) (4096 + header_size) (unat (18446744073709551615 :: size_t))"
    unfolding range_mapped_iff by (metis os_state.select_convs(1))
  then have "memset ?s1 (4096 + header_size) 0 18446744073709551615 = Inl Segfault"
    by (simp add: memset_def)
  moreover have "(4096 :: addr) + header_size \<noteq> NULL"
    by (simp add: header_size_def NULL_def)
  ultimately show ?thesis
    using m by (simp add: calloc_def)
qed

end
